theory Spec2Isabelle
  imports Main
begin

section \<open>Strings and character classes\<close>

text \<open>
  A JavaScript string is modelled as a \<^typ>\<open>string\<close>: a list of code units, here the code
  units below 256. The character classes are the ones the regular expressions of the
  source use: \<open>\s\<close> (white space and line terminators, which is also what \<open>trim()\<close>
  strips), \<open>\d\<close>, \<open>\w\<close>, \<open>[a-z]\<close>, \<open>[A-Z]\<close> and \<open>.\<close> (anything but a line
  terminator).
\<close>

definition space :: "char \<Rightarrow> bool" where
  "space c = (c \<in> set [CHR 0x09, CHR 0x0A, CHR 0x0B, CHR 0x0C, CHR 0x0D, CHR 0x20, CHR 0xA0])"

definition digit :: "char \<Rightarrow> bool" where
  "digit c = (c \<in> set ''0123456789'')"

definition lower :: "char \<Rightarrow> bool" where
  "lower c = (c \<in> set ''abcdefghijklmnopqrstuvwxyz'')"

definition upper :: "char \<Rightarrow> bool" where
  "upper c = (c \<in> set ''ABCDEFGHIJKLMNOPQRSTUVWXYZ'')"

definition wordc :: "char \<Rightarrow> bool" where
  "wordc c = (lower c \<or> upper c \<or> digit c \<or> c = CHR ''_'')"

definition dot :: "char \<Rightarrow> bool" where
  "dot c = (c \<noteq> CHR 0x0A \<and> c \<noteq> CHR 0x0D)"

definition anychar :: "char \<Rightarrow> bool" where
  "anychar c = True"

text \<open>Canonicalisation under the \<open>i\<close> flag: an ASCII letter is compared by its upper case.\<close>

definition canon :: "char \<Rightarrow> char" where
  "canon c = (case map_of (zip ''abcdefghijklmnopqrstuvwxyz'' ''ABCDEFGHIJKLMNOPQRSTUVWXYZ'') c of
                Some u \<Rightarrow> u | None \<Rightarrow> c)"

definition trim :: "string \<Rightarrow> string" where
  "trim s = rev (dropWhile space (rev (dropWhile space s)))"


section \<open>Regular expressions with backtracking\<close>

text \<open>
  The source is written with JavaScript regular expressions. They are embedded as a
  datatype, and matched by a function that returns every way to match, in the order a
  backtracking matcher tries them (a greedy quantifier tries the longest repetition
  first, a lazy one the shortest; an alternative tries its left side first). The first
  element of the list is the match JavaScript reports.

  A matching state is the text before the position (reversed), the text from the position
  on, and the capture groups set so far (the latest first).
\<close>

datatype re =
    Atom "char \<Rightarrow> bool"
  | Eps
  | Seq re re
  | Alt re re
  | Star bool re
  | Group nat re
  | Bol
  | Eol
  | WordB

type_synonym st = "string \<times> string \<times> (nat \<times> string) list"

text \<open>
  Repetition. An iteration that consumes nothing is rejected, as in ECMAScript, so a
  repetition runs at most as many iterations as there are characters left: the first
  argument counts them down and is never what stops a match.
\<close>

fun star :: "bool \<Rightarrow> (st \<Rightarrow> st list) \<Rightarrow> nat \<Rightarrow> st \<Rightarrow> st list" where
  "star g f 0 x = [x]"
| "star g f (Suc n) x =
     (let more = concat (map (star g f n)
                   (filter (\<lambda>y. length (fst (snd y)) < length (fst (snd x))) (f x)))
      in if g then more @ [x] else x # more)"

primrec rm :: "re \<Rightarrow> st \<Rightarrow> st list" where
  "rm (Atom p) x =
     (case x of (pre, s, c) \<Rightarrow>
        (case s of [] \<Rightarrow> [] | a # as \<Rightarrow> if p a then [(a # pre, as, c)] else []))"
| "rm Eps x = [x]"
| "rm (Seq a b) x = concat (map (rm b) (rm a x))"
| "rm (Alt a b) x = rm a x @ rm b x"
| "rm (Star g a) x = star g (rm a) (length (fst (snd x))) x"
| "rm (Group n a) x =
     map (\<lambda>y. (fst y, fst (snd y),
                (n, take (length (fst (snd x)) - length (fst (snd y))) (fst (snd x))) # snd (snd y)))
         (rm a x)"
| "rm Bol x = (if fst x = [] then [x] else [])"
| "rm Eol x = (if fst (snd x) = [] then [x] else [])"
| "rm WordB x =
     (case x of (pre, s, c) \<Rightarrow>
        if (case pre of [] \<Rightarrow> False | a # _ \<Rightarrow> wordc a) \<noteq> (case s of [] \<Rightarrow> False | a # _ \<Rightarrow> wordc a)
        then [x] else [])"

definition Chr :: "char \<Rightarrow> re" where
  "Chr c = Atom (\<lambda>d. d = c)"

definition Lit :: "string \<Rightarrow> re" where
  "Lit s = foldr (\<lambda>c r. Seq (Chr c) r) s Eps"

definition LitI :: "string \<Rightarrow> re" where
  "LitI s = foldr (\<lambda>c r. Seq (Atom (\<lambda>d. canon d = canon c)) r) s Eps"

definition Plus :: "bool \<Rightarrow> re \<Rightarrow> re" where
  "Plus g r = Seq r (Star g r)"

definition Opt :: "re \<Rightarrow> re" where
  "Opt r = Alt r Eps"

definition Seqs :: "re list \<Rightarrow> re" where
  "Seqs rs = foldr Seq rs Eps"

definition Alts :: "re list \<Rightarrow> re" where
  "Alts rs = foldr Alt (butlast rs) (last rs)"

text \<open>\<open>s.match(r)\<close> and \<open>r.test(s)\<close> without the \<open>g\<close> flag: the leftmost position with a match.\<close>

fun exec_from :: "re \<Rightarrow> string \<Rightarrow> string \<Rightarrow> st option" where
  "exec_from r pre s =
     (case rm r (pre, s, []) of
        y # _ \<Rightarrow> Some y
      | [] \<Rightarrow> (case s of [] \<Rightarrow> None | a # as \<Rightarrow> exec_from r (a # pre) as))"

definition exec :: "re \<Rightarrow> string \<Rightarrow> st option" where
  "exec r s = exec_from r [] s"

definition test :: "re \<Rightarrow> string \<Rightarrow> bool" where
  "test r s = (exec r s \<noteq> None)"

definition cap :: "st \<Rightarrow> nat \<Rightarrow> string option" where
  "cap y n = map_of (snd (snd y)) n"

text \<open>
  \<open>s.replace(r, f)\<close> with the \<open>g\<close> flag: every match, from left to right, is replaced by
  what \<open>f\<close> makes of its capture groups; after a match of no character the search moves
  on by one character.
\<close>

function replace_from :: "re \<Rightarrow> (st \<Rightarrow> string) \<Rightarrow> string \<Rightarrow> string \<Rightarrow> string" where
  "replace_from r f pre s =
     (case rm r (pre, s, []) of
        y # _ \<Rightarrow>
          (if length (fst (snd y)) < length s then f y @ replace_from r f (fst y) (fst (snd y))
           else f y @ (case s of [] \<Rightarrow> [] | a # as \<Rightarrow> a # replace_from r f (a # pre) as))
      | [] \<Rightarrow> (case s of [] \<Rightarrow> [] | a # as \<Rightarrow> a # replace_from r f (a # pre) as))"
  by pat_completeness auto
termination
  by (relation "measure (\<lambda>(r, f, pre, s). length s)") auto

definition replace_all :: "re \<Rightarrow> (st \<Rightarrow> string) \<Rightarrow> string \<Rightarrow> string" where
  "replace_all r f s = replace_from r f [] s"

text \<open>
  \<open>s.split(r)\<close> for a pattern that matches at least one character (the only use in the
  source is \<open>split(/\s+/)\<close>): the pieces between the matches, the empty string giving one
  empty piece.
\<close>

function split_from :: "re \<Rightarrow> string \<Rightarrow> string \<Rightarrow> string \<Rightarrow> string list" where
  "split_from r piece pre s =
     (case s of
        [] \<Rightarrow> [rev piece]
      | a # as \<Rightarrow>
          (case rm r (pre, s, []) of
             y # _ \<Rightarrow>
               (if length (fst (snd y)) < length s
                then rev piece # split_from r [] (fst y) (fst (snd y))
                else split_from r (a # piece) (a # pre) as)
           | [] \<Rightarrow> split_from r (a # piece) (a # pre) as))"
  by pat_completeness auto
termination
  by (relation "measure (\<lambda>(r, piece, pre, s). length s)") auto

definition split :: "re \<Rightarrow> string \<Rightarrow> string list" where
  "split r s = split_from r [] [] s"


section \<open>Numbers\<close>

text \<open>
  A JavaScript number is modelled as an integer or \<open>NaN\<close>; \<open>parseInt(s, 10)\<close> reads an
  optional sign and the leading digits after leading white space, and a template
  literal prints a number in decimal.
  The model is exact for the integers that JavaScript holds exactly, those of magnitude
  below \<open>2^53\<close>: above, \<open>parseInt\<close> rounds to the nearest double, and from \<open>10^21\<close> on a
  number is printed with an exponent. The years of a citation have four digits.
\<close>

datatype number = NaN | Num int

definition digit_val :: "char \<Rightarrow> nat" where
  "digit_val c = of_char c - 48"

definition nat_of_digits :: "string \<Rightarrow> nat" where
  "nat_of_digits ds = foldl (\<lambda>a c. 10 * a + digit_val c) 0 ds"

definition parseInt :: "string \<Rightarrow> number" where
  "parseInt s =
     (let t = dropWhile space s;
          neg = (case t of [] \<Rightarrow> False | c # _ \<Rightarrow> c = CHR ''-'');
          u = (case t of [] \<Rightarrow> [] | c # r \<Rightarrow> if c = CHR ''-'' \<or> c = CHR ''+'' then r else t);
          ds = takeWhile digit u
      in if ds = [] then NaN
         else Num (if neg then - int (nat_of_digits ds) else int (nat_of_digits ds)))"

fun show_nat :: "nat \<Rightarrow> string" where
  "show_nat n = (if n < 10 then [char_of (48 + n)] else show_nat (n div 10) @ [char_of (48 + n mod 10)])"

definition show_number :: "number \<Rightarrow> string" where
  "show_number x =
     (case x of NaN \<Rightarrow> ''NaN''
      | Num i \<Rightarrow> if i < 0 then CHR ''-'' # show_nat (nat (- i)) else show_nat (nat i))"


section \<open>The citation grammar\<close>

subsection \<open>Types (src/types/citations.ts)\<close>

datatype CitationFormat = full | short | pinpoint

datatype CitationType = statute | statutory_instrument | unknown

record ParsedCitation =
  valid :: bool
  ctype :: CitationType
  title :: "string option"
  year :: "number option"
  section' :: "string option"
  subsection' :: "string option"
  paragraph' :: "string option"
  error :: "string option"

subsection \<open>The parser (src/citation/parser.ts)\<close>

text \<open>
  \<^verbatim>\<open>FULL_CITATION  = /^(?:Section|s\.?)\s+(\d+(?:\(\d+\))*(?:\([a-z]\))*)\s*,?\s+(.+?)\s+(\d{4})$/i\<close>

  \<^verbatim>\<open>SHORT_CITATION = /^s\.?\s+(\d+(?:\(\d+\))*(?:\([a-z]\))*)\s+([A-Z][A-Z0-9&\s]*?)\s+(\d{4})$/\<close>

  \<^verbatim>\<open>SECTION_REF    = /^(\d+)(?:\((\d+)\))?(?:\(([a-z])\))?$/\<close>

  Under the \<open>i\<close> flag the class \<open>[a-z]\<close> holds the letters of both cases.
\<close>

definition letter :: "char \<Rightarrow> bool" where
  "letter c = (lower c \<or> upper c)"

definition FULL_CITATION :: re where
  "FULL_CITATION = Seqs [Bol,
      Alt (LitI ''Section'') (Seq (LitI ''s'') (Opt (Chr CHR ''.''))),
      Plus True (Atom space),
      Group 1 (Seqs [Plus True (Atom digit),
                     Star True (Seqs [Chr CHR ''('', Plus True (Atom digit), Chr CHR '')'']),
                     Star True (Seqs [Chr CHR ''('', Atom letter, Chr CHR '')''])]),
      Star True (Atom space), Opt (Chr CHR '',''), Plus True (Atom space),
      Group 2 (Plus False (Atom dot)),
      Plus True (Atom space),
      Group 3 (Seqs [Atom digit, Atom digit, Atom digit, Atom digit]),
      Eol]"

definition SHORT_CITATION :: re where
  "SHORT_CITATION = Seqs [Bol,
      Chr CHR ''s'', Opt (Chr CHR ''.''),
      Plus True (Atom space),
      Group 1 (Seqs [Plus True (Atom digit),
                     Star True (Seqs [Chr CHR ''('', Plus True (Atom digit), Chr CHR '')'']),
                     Star True (Seqs [Chr CHR ''('', Atom lower, Chr CHR '')''])]),
      Plus True (Atom space),
      Group 2 (Seq (Atom upper)
                 (Star False (Atom (\<lambda>c. upper c \<or> digit c \<or> c = CHR ''&'' \<or> space c)))),
      Plus True (Atom space),
      Group 3 (Seqs [Atom digit, Atom digit, Atom digit, Atom digit]),
      Eol]"

definition SECTION_REF :: re where
  "SECTION_REF = Seqs [Bol,
      Group 1 (Plus True (Atom digit)),
      Opt (Seqs [Chr CHR ''('', Group 2 (Plus True (Atom digit)), Chr CHR '')'']),
      Opt (Seqs [Chr CHR ''('', Group 3 (Atom lower), Chr CHR '')'']),
      Eol]"

text \<open>\<open>m[i]\<close> of a match: the group's text; \<open>m[i] || undefined\<close> drops the empty text too.\<close>

definition group_text :: "st \<Rightarrow> nat \<Rightarrow> string" where
  "group_text y n = (case cap y n of Some t \<Rightarrow> t | None \<Rightarrow> [])"

definition nonempty_group :: "st \<Rightarrow> nat \<Rightarrow> string option" where
  "nonempty_group y n = (case cap y n of Some t \<Rightarrow> if t = [] then None else Some t | None \<Rightarrow> None)"

definition parseSection :: "string \<Rightarrow> string \<Rightarrow> number \<Rightarrow> CitationType \<Rightarrow> ParsedCitation" where
  "parseSection sectionStr ttl yr ty =
     (case exec SECTION_REF sectionStr of
        None \<Rightarrow>
          \<lparr>valid = True, ctype = ty, title = Some (trim ttl), year = Some yr,
           section' = Some sectionStr, subsection' = None, paragraph' = None, error = None\<rparr>
      | Some m \<Rightarrow>
          \<lparr>valid = True, ctype = ty, title = Some (trim ttl), year = Some yr,
           section' = Some (group_text m 1), subsection' = nonempty_group m 2,
           paragraph' = nonempty_group m 3, error = None\<rparr>)"

definition parseCitation :: "string \<Rightarrow> ParsedCitation" where
  "parseCitation citation =
     (let trimmed = trim citation in
      case exec FULL_CITATION trimmed of
        Some m \<Rightarrow> parseSection (group_text m 1) (group_text m 2) (parseInt (group_text m 3)) statute
      | None \<Rightarrow>
          (case exec SHORT_CITATION trimmed of
             Some m \<Rightarrow> parseSection (group_text m 1) (group_text m 2) (parseInt (group_text m 3)) statute
           | None \<Rightarrow>
               \<lparr>valid = False, ctype = unknown, title = None, year = None, section' = None,
                subsection' = None, paragraph' = None,
                error = Some (''Could not parse UK citation: '' @ [CHR 0x22] @ trimmed @ [CHR 0x22])\<rparr>))"

subsection \<open>The formatter (formatCitation, buildPinpoint)\<close>

definition present :: "string option \<Rightarrow> bool" where
  "present v = (case v of Some t \<Rightarrow> t \<noteq> [] | None \<Rightarrow> False)"

definition buildPinpoint :: "ParsedCitation \<Rightarrow> string" where
  "buildPinpoint parsed =
     (let r0 = (case section' parsed of Some t \<Rightarrow> t | None \<Rightarrow> []);
          r1 = (if present (subsection' parsed) then r0 @ ''('' @ the (subsection' parsed) @ '')'' else r0);
          r2 = (if present (paragraph' parsed) then r1 @ ''('' @ the (paragraph' parsed) @ '')'' else r1)
      in r2)"

definition title_text :: "ParsedCitation \<Rightarrow> string" where
  "title_text parsed = (case title parsed of Some t \<Rightarrow> t | None \<Rightarrow> [])"

definition year_text :: "ParsedCitation \<Rightarrow> string" where
  "year_text parsed = (case year parsed of Some y \<Rightarrow> show_number y | None \<Rightarrow> [])"

definition formatCitation :: "ParsedCitation \<Rightarrow> CitationFormat \<Rightarrow> string" where
  "formatCitation parsed fmt =
     (if \<not> valid parsed \<or> \<not> present (section' parsed) then []
      else
        let pin = buildPinpoint parsed in
        case fmt of
          full \<Rightarrow> trim (''Section '' @ pin @ '', '' @ title_text parsed @ '' '' @ year_text parsed)
        | short \<Rightarrow> trim (''s. '' @ pin @ '' '' @ title_text parsed @ '' '' @ year_text parsed)
        | pinpoint \<Rightarrow> ''s. '' @ pin)"


text \<open>A citation with every field set.\<close>

definition example_citation :: ParsedCitation where
  "example_citation =
     \<lparr>valid = True, ctype = statute, title = Some ''Data Protection Act'', year = Some (Num 2018),
      section' = Some ''1'', subsection' = Some ''1'', paragraph' = Some ''a'', error = None\<rparr>"


subsection \<open>The validator (src/citation/validator.ts)\<close>

text \<open>
  The provision store is an SQLite database. The two tables the validator reads are
  modelled as lists of rows in table order, and its two prepared statements as the
  functions \<open>find_document\<close> and \<open>provision_found\<close>.

  SQLite's \<open>LIKE\<close>: \<open>%\<close> stands for any text, \<open>_\<close> for any one character, and ASCII letters
  compare without case. The pattern and the text are read as C strings, up to the first
  NUL character. A pattern of more than 50000 bytes (in UTF-8, where a code unit from 128
  on takes two bytes) is refused with the error \<open>LIKE or GLOB pattern too complex\<close> as
  soon as a row is compared, and the driver throws it.
\<close>

record document_row =
  doc_id :: string
  doc_title :: string
  doc_status :: string

record provision_row =
  prov_document_id :: string
  prov_section :: string

record Database =
  legal_documents :: "document_row list"
  legal_provisions :: "provision_row list"

datatype SqliteError = LikePatternTooComplex

definition c_string :: "string \<Rightarrow> string" where
  "c_string s = takeWhile (\<lambda>c. c \<noteq> CHR 0x00) s"

definition utf8_length :: "string \<Rightarrow> nat" where
  "utf8_length s = foldr (\<lambda>c n. (if (of_char c :: nat) < 128 then 1 else 2) + n) s 0"

definition SQLITE_MAX_LIKE_PATTERN_LENGTH :: nat where
  "SQLITE_MAX_LIKE_PATTERN_LENGTH = 50000"

fun like_match :: "string \<Rightarrow> string \<Rightarrow> bool" where
  "like_match [] t = (t = [])"
| "like_match (p # ps) [] = (p = CHR ''%'' \<and> like_match ps [])"
| "like_match (p # ps) (c # cs) =
     (if p = CHR ''%'' then like_match ps (c # cs) \<or> like_match (p # ps) cs
      else if p = CHR ''_'' then like_match ps cs
      else canon p = canon c \<and> like_match ps cs)"

definition sql_like :: "string \<Rightarrow> string \<Rightarrow> bool" where
  "sql_like pat t = like_match (c_string pat) (c_string t)"

text \<open>\<^verbatim>\<open>SELECT id, title, status FROM legal_documents WHERE title LIKE ? LIMIT 1\<close>\<close>

definition find_document :: "Database \<Rightarrow> string \<Rightarrow> SqliteError + document_row option" where
  "find_document db pat =
     (if legal_documents db \<noteq> [] \<and> utf8_length pat > SQLITE_MAX_LIKE_PATTERN_LENGTH
      then Inl LikePatternTooComplex
      else Inr (find (\<lambda>d. sql_like pat (doc_title d)) (legal_documents db)))"

text \<open>\<^verbatim>\<open>SELECT 1 FROM legal_provisions WHERE document_id = ? AND section = ?\<close>\<close>

definition provision_found :: "Database \<Rightarrow> string \<Rightarrow> string \<Rightarrow> bool" where
  "provision_found db d sec =
     list_ex (\<lambda>p. prov_document_id p = d \<and> prov_section p = sec) (legal_provisions db)"

record ValidationResult =
  citation :: ParsedCitation
  document_exists :: bool
  provision_exists :: bool
  document_title :: "string option"
  status :: "string option"
  warnings :: "string list"

text \<open>A template literal prints a missing field as \<open>undefined\<close>.\<close>

definition tmpl :: "string option \<Rightarrow> string" where
  "tmpl v = (case v of Some t \<Rightarrow> t | None \<Rightarrow> ''undefined'')"

definition tmpl_number :: "number option \<Rightarrow> string" where
  "tmpl_number v = (case v of Some y \<Rightarrow> show_number y | None \<Rightarrow> ''undefined'')"

definition document_pattern :: "ParsedCitation \<Rightarrow> string" where
  "document_pattern parsed = ''%'' @ tmpl (title parsed) @ ''%'' @ year_text parsed @ ''%''"

definition not_found_warning :: "ParsedCitation \<Rightarrow> string" where
  "not_found_warning parsed =
     ''Document '' @ [CHR 0x22] @ tmpl (title parsed) @ '' '' @ tmpl_number (year parsed) @ [CHR 0x22]
       @ '' not found in database''"

text \<open>
  The validator has no exception handler: an error of the first query leaves
  \<open>validateCitation\<close> as an exception (\<open>Inl\<close>).
\<close>

definition validateCitation :: "Database \<Rightarrow> string \<Rightarrow> SqliteError + ValidationResult" where
  "validateCitation db cit =
     (let parsed = parseCitation cit in
      if \<not> valid parsed then
        Inr \<lparr>citation = parsed, document_exists = False, provision_exists = False,
             document_title = None, status = None,
             warnings = [case error parsed of Some e \<Rightarrow> e | None \<Rightarrow> ''Invalid citation format'']\<rparr>
      else
        case find_document db (document_pattern parsed) of
          Inl e \<Rightarrow> Inl e
        | Inr None \<Rightarrow>
            Inr \<lparr>citation = parsed, document_exists = False, provision_exists = False,
                 document_title = None, status = None, warnings = [not_found_warning parsed]\<rparr>
        | Inr (Some doc) \<Rightarrow>
            let w1 = (if doc_status doc = ''repealed'' then [''This statute has been repealed''] else []);
                provisionExists =
                  (if present (section' parsed) then provision_found db (doc_id doc) (the (section' parsed))
                   else False);
                w2 = (if present (section' parsed) \<and> \<not> provisionExists
                      then w1 @ [''Section '' @ the (section' parsed) @ '' not found in '' @ doc_title doc]
                      else w1)
            in Inr \<lparr>citation = parsed, document_exists = True, provision_exists = provisionExists,
                    document_title = Some (doc_title doc), status = Some (doc_status doc),
                    warnings = w2\<rparr>)"

definition example_db :: Database where
  "example_db =
     \<lparr>legal_documents =
        [\<lparr>doc_id = ''ukpga-2018-12'', doc_title = ''Data Protection Act 2018'', doc_status = ''in_force''\<rparr>,
         \<lparr>doc_id = ''ukpga-1984-35'', doc_title = ''Data Protection Act 1984'', doc_status = ''repealed''\<rparr>],
      legal_provisions =
        [\<lparr>prov_document_id = ''ukpga-2018-12'', prov_section = ''3''\<rparr>,
         \<lparr>prov_document_id = ''ukpga-1984-35'', prov_section = ''1''\<rparr>]\<rparr>"

text \<open>A citation whose title has 50000 letters.\<close>

definition long_title :: string where
  "long_title = replicate 50000 CHR ''a''"

definition long_citation :: string where
  "long_citation = ''Section 1, '' @ long_title @ '' 2018''"



section \<open>The search-query normaliser (src/utils/fts-query.ts)\<close>

text \<open>\<^verbatim>\<open>EXPLICIT_FTS_SYNTAX = /["""]|(\bAND\b)|(\bOR\b)|(\bNOT\b)|\*$/\<close>\<close>

definition EXPLICIT_FTS_SYNTAX :: re where
  "EXPLICIT_FTS_SYNTAX =
     Alts [Chr (CHR 0x22),
           Group 1 (Seqs [WordB, Lit ''AND'', WordB]),
           Group 2 (Seqs [WordB, Lit ''OR'', WordB]),
           Group 3 (Seqs [WordB, Lit ''NOT'', WordB]),
           Seq (Chr CHR ''*'') Eol]"

record FtsQueryVariants =
  primary :: string
  fallback :: "string option"

definition join :: "string \<Rightarrow> string list \<Rightarrow> string" where
  "join sep xs = (case xs of [] \<Rightarrow> [] | y # ys \<Rightarrow> foldl (\<lambda>acc t. acc @ sep @ t) y ys)"

text \<open>\<open>t.replace(/[^\w\s-]/g, '')\<close>\<close>

definition strip_token :: "string \<Rightarrow> string" where
  "strip_token t = replace_all (Atom (\<lambda>c. \<not> (wordc c \<or> space c \<or> c = CHR ''-''))) (\<lambda>m. []) t"

definition buildFtsQueryVariants :: "string \<Rightarrow> FtsQueryVariants" where
  "buildFtsQueryVariants query =
     (let trimmed = trim query in
      if test EXPLICIT_FTS_SYNTAX trimmed then \<lparr>primary = trimmed, fallback = None\<rparr>
      else
        let tokens = map strip_token
                       (filter (\<lambda>t. length t > 0) (split (Plus True (Atom space)) trimmed))
        in if length tokens = 0 then \<lparr>primary = trimmed, fallback = None\<rparr>
           else \<lparr>primary = join '' '' (map (\<lambda>t. [CHR 0x22] @ t @ [CHR 0x22] @ ''*'') tokens),
                 fallback = Some (join '' OR '' (map (\<lambda>t. t @ ''*'') tokens))\<rparr>)"

text \<open>
  The tokenisation as the specification words it: split on white space, then strip the
  characters outside word characters, white space and the hyphen.
\<close>

definition stripped_tokens :: "string \<Rightarrow> string list" where
  "stripped_tokens query = map strip_token (split (Plus True (Atom space)) (trim query))"


section \<open>The mixed-content flattener (scripts/lib/fetcher.ts)\<close>

text \<open>
  \<^verbatim>\<open>
  xml.replace(/<(?:noteRef|marker|ref)\b[^>]*\/>/g, '')
     .replace(/<(?:ins|del|ref|authorialNote)\b[^>]*>([\s\S]*?)<\/(?:ins|del|ref|authorialNote)>/g, '$1')
     .replace(/<noteRef\b[^>]*\/>/g, '')
  \<close>
\<close>

definition not_gt :: "char \<Rightarrow> bool" where
  "not_gt c = (c \<noteq> CHR ''>'')"

definition SELF_CLOSING :: re where
  "SELF_CLOSING =
     Seqs [Chr CHR ''<'', Alts [Lit ''noteRef'', Lit ''marker'', Lit ''ref''], WordB,
           Star True (Atom not_gt), Lit ''/>'']"

definition PAIRED :: re where
  "PAIRED =
     Seqs [Chr CHR ''<'', Alts [Lit ''ins'', Lit ''del'', Lit ''ref'', Lit ''authorialNote''], WordB,
           Star True (Atom not_gt), Chr CHR ''>'',
           Group 1 (Star False (Atom anychar)),
           Lit ''</'', Alts [Lit ''ins'', Lit ''del'', Lit ''ref'', Lit ''authorialNote''], Chr CHR ''>'']"

definition NOTE_REF :: re where
  "NOTE_REF = Seqs [Chr CHR ''<'', Lit ''noteRef'', WordB, Star True (Atom not_gt), Lit ''/>'']"

definition flattenInlineElements :: "string \<Rightarrow> string" where
  "flattenInlineElements xml =
     replace_all NOTE_REF (\<lambda>m. [])
       (replace_all PAIRED (\<lambda>m. group_text m 1)
         (replace_all SELF_CLOSING (\<lambda>m. []) xml))"


section \<open>The parsed markup tree\<close>

text \<open>
  The XML parser (fast-xml-parser, with attributes kept under the prefix \<open>@_\<close>, text under
  \<open>#text\<close>, attribute values left as strings and tag values parsed) is a library outside
  the repository. Its output is modelled as a tree: a string, a number (kept as the text
  that \<open>String(n)\<close> prints), a boolean, an object with its attributes (always strings)
  and its other keys in insertion order, or an array. A missing key is \<open>None\<close>.
\<close>

datatype jv =
    JStr string
  | JNum string
  | JBool bool
  | JObj "(string \<times> string) list" "(string \<times> jv) list"
  | JArr "jv list"

fun get :: "jv \<Rightarrow> string \<Rightarrow> jv option" where
  "get (JObj a kids) k = map_of kids k"
| "get v k = None"

fun attr :: "jv \<Rightarrow> string \<Rightarrow> string option" where
  "attr (JObj a kids) k = map_of a k"
| "attr v k = None"

fun truthy :: "jv \<Rightarrow> bool" where
  "truthy (JStr s) = (s \<noteq> [])"
| "truthy (JNum n) = (n \<noteq> ''0'' \<and> n \<noteq> ''NaN'')"
| "truthy (JBool b) = b"
| "truthy v = True"

fun is_object :: "jv \<Rightarrow> bool" where
  "is_object (JObj a kids) = True"
| "is_object (JArr vs) = True"
| "is_object v = False"

definition items :: "jv option \<Rightarrow> jv list" where
  "items v = (case v of None \<Rightarrow> []
              | Some w \<Rightarrow> if \<not> truthy w then [] else (case w of JArr vs \<Rightarrow> vs | _ \<Rightarrow> [w]))"

lemma size_map_of: "map_of kids k = Some v \<Longrightarrow> size v < Suc (size_list (size_prod (\<lambda>x. 0) size) kids)"
  by (induction kids) (auto split: if_splits)

lemma size_get [termination_simp]: "get node k = Some v \<Longrightarrow> size v < size node"
  by (cases node) (auto dest: size_map_of)

lemma size_member: "x \<in> set vs \<Longrightarrow> size x < Suc (size_list size vs)"
  by (induction vs) auto

lemma size_items [termination_simp]: "x \<in> set (items (get node k)) \<Longrightarrow> size x < size node"
proof (cases "get node k")
  case None
  then show "x \<in> set (items (get node k)) \<Longrightarrow> size x < size node"
    by (simp add: items_def)
next
  case (Some w)
  assume x: "x \<in> set (items (get node k))"
  have w: "size w < size node"
    using Some by (rule size_get)
  show "size x < size node"
  proof (cases w)
    case (JArr vs)
    with x Some have "x \<in> set vs"
      by (simp add: items_def split: if_splits)
    then have "size x < size w"
      using JArr by (simp add: size_member)
    with w show ?thesis by simp
  next
    case (JStr s)
    with x Some w show ?thesis by (simp add: items_def split: if_splits)
  next
    case (JNum n)
    with x Some w show ?thesis by (simp add: items_def split: if_splits)
  next
    case (JBool b)
    with x Some w show ?thesis by (simp add: items_def split: if_splits)
  next
    case (JObj a kids)
    with x Some w show ?thesis by (simp add: items_def split: if_splits)
  qed
qed

text \<open>
  \<open>String(v)\<close>, the first non-empty text, and \<open>key.startsWith(p)\<close>.
\<close>

fun js_String :: "jv \<Rightarrow> string" where
  "js_String (JStr s) = s"
| "js_String (JNum n) = n"
| "js_String (JBool b) = (if b then ''true'' else ''false'')"
| "js_String (JObj a kids) = ''[object Object]''"
| "js_String (JArr vs) = join '','' (map js_String vs)"

definition first_truthy :: "string option list \<Rightarrow> string option" where
  "first_truthy xs = (case filter present xs of [] \<Rightarrow> None | y # _ \<Rightarrow> y)"

definition starts_with :: "string \<Rightarrow> string \<Rightarrow> bool" where
  "starts_with p s = (take (length p) s = p)"

fun extractText :: "jv \<Rightarrow> string option" where
  "extractText (JStr s) = Some s"
| "extractText (JNum n) = Some n"
| "extractText (JBool b) = None"
| "extractText (JObj a kids) =
     (case map_of kids ''#text'' of
        Some t \<Rightarrow> Some (js_String t)
      | None \<Rightarrow> first_truthy (map (\<lambda>kv. if starts_with ''@_'' (fst kv) then None else extractText (snd kv)) kids))"
| "extractText (JArr vs) = first_truthy (map extractText vs)"


section \<open>The feed-index reader and the tree walker (scripts/lib/fetcher.ts)\<close>

definition or_empty :: "string option \<Rightarrow> string" where
  "or_empty v = (case v of Some t \<Rightarrow> t | None \<Rightarrow> [])"

definition rel_in :: "jv \<Rightarrow> string list \<Rightarrow> bool" where
  "rel_in l rels = (case attr l ''@_rel'' of Some r \<Rightarrow> r \<in> set rels | None \<Rightarrow> False)"

definition extractLink :: "jv option \<Rightarrow> string" where
  "extractLink link =
     (case link of
        None \<Rightarrow> []
      | Some v \<Rightarrow>
          if \<not> truthy v then []
          else (case v of
                  JArr ls \<Rightarrow>
                    (case find (\<lambda>l. rel_in l [''self'', ''alternate'']) ls of
                       Some l \<Rightarrow> or_empty (attr l ''@_href'')
                     | None \<Rightarrow> (case ls of [] \<Rightarrow> [] | l # _ \<Rightarrow> or_empty (attr l ''@_href'')))
                | JObj a kids \<Rightarrow> or_empty (map_of a ''@_href'')
                | _ \<Rightarrow> []))"

record ActIndexEntry =
  entry_title :: string
  entry_year :: number
  entry_number :: number
  entry_url :: string
  entry_updated :: string

record AtomFeedResult =
  entries :: "ActIndexEntry list"
  hasNextPage :: bool
  totalResults :: "number option"

definition UKPGA_URL :: re where
  "UKPGA_URL = Seqs [Lit ''/ukpga/'',
                     Group 1 (Seqs [Atom digit, Atom digit, Atom digit, Atom digit]),
                     Chr CHR ''/'', Group 2 (Plus True (Atom digit))]"

definition collapse_ws :: "string \<Rightarrow> string" where
  "collapse_ws s = replace_all (Plus True (Atom space)) (\<lambda>m. '' '') s"

definition feed_entry :: "jv \<Rightarrow> ActIndexEntry option" where
  "feed_entry entry =
     (if \<not> truthy entry then None
      else case (case get entry ''title'' of None \<Rightarrow> None | Some t \<Rightarrow> extractText t) of
        None \<Rightarrow> None
      | Some ttl \<Rightarrow>
          if ttl = [] then None
          else
            let id = or_empty (case get entry ''id'' of None \<Rightarrow> None | Some i \<Rightarrow> extractText i);
                link = extractLink (get entry ''link'');
                url = (if link \<noteq> [] then link else id)
            in case exec UKPGA_URL url of
                 None \<Rightarrow> None
               | Some m \<Rightarrow>
                   let yr = parseInt (group_text m 1); no = parseInt (group_text m 2) in
                   Some \<lparr>entry_title = trim (collapse_ws ttl), entry_year = yr, entry_number = no,
                         entry_url = ''https://www.legislation.gov.uk/ukpga/'' @ show_number yr
                                       @ ''/'' @ show_number no,
                         entry_updated =
                           or_empty (case get entry ''updated'' of None \<Rightarrow> None | Some u \<Rightarrow> extractText u)\<rparr>)"

definition parseAtomFeed :: "(string \<Rightarrow> jv) \<Rightarrow> string \<Rightarrow> AtomFeedResult" where
  "parseAtomFeed parse xml =
     (let parsed = parse xml;
          feed = (case get parsed ''feed'' of Some f \<Rightarrow> f | None \<Rightarrow> parsed);
          entryList = (case get feed ''entry'' of None \<Rightarrow> []
                       | Some raw \<Rightarrow> (case raw of JArr es \<Rightarrow> es | _ \<Rightarrow> [raw]));
          es = List.map_filter feed_entry entryList;
          hasNext = (case get feed ''link'' of
                       Some (JArr ls) \<Rightarrow> list_ex (\<lambda>l. rel_in l [''next'']) ls
                     | _ \<Rightarrow> False);
          total = (case get feed ''openSearch:totalResults'' of
                     None \<Rightarrow> None
                   | Some t \<Rightarrow> if truthy t
                               then Some (parseInt (case extractText t of Some x \<Rightarrow> x | None \<Rightarrow> ''0''))
                               else None);
          hasNext' = (if length es = 0 then False else hasNext)
      in \<lparr>entries = es, hasNextPage = hasNext', totalResults = total\<rparr>)"

record ParsedProvision =
  provision_ref :: string
  p_section :: string
  p_title :: string
  p_content :: string

definition SECTION_ID :: re where
  "SECTION_ID = Seqs [Lit ''section-'', Group 1 (Plus True (Atom digit)), Eol]"

definition SUBSECTION_ID :: re where
  "SUBSECTION_ID = Seqs [Lit ''section-'', Group 1 (Plus True (Atom digit)), Chr CHR ''-'',
                         Group 2 (Plus True (Atom digit)), Eol]"

definition buildProvisionRef :: "string \<Rightarrow> string \<Rightarrow> string option \<Rightarrow> string" where
  "buildProvisionRef eId elementType num =
     (if eId \<noteq> [] then
        (case exec SECTION_ID eId of
           Some m \<Rightarrow> ''s'' @ group_text m 1
         | None \<Rightarrow>
             (case exec SUBSECTION_ID eId of
                Some m \<Rightarrow> ''s'' @ group_text m 1 @ ''('' @ group_text m 2 @ '')''
              | None \<Rightarrow> eId))
      else if present num then
        (let cleaned = replace_all (Atom (\<lambda>c. c = CHR ''.'' \<or> space c)) (\<lambda>m. []) (the num)
         in if elementType = ''section'' then ''s'' @ cleaned else cleaned)
      else elementType @ ''-unknown'')"

definition join_parts :: "string list \<Rightarrow> string" where
  "join_parts parts = trim (collapse_ws (join '' '' (filter (\<lambda>t. t \<noteq> []) parts)))"

definition entries_of :: "jv \<Rightarrow> (string \<times> jv) list" where
  "entries_of node = (case node of JObj a kids \<Rightarrow> kids
                      | JArr vs \<Rightarrow> zip (map show_nat [0..<length vs]) vs
                      | _ \<Rightarrow> [])"

lemma size_entries_of:
  "kv \<in> set (entries_of node) \<Longrightarrow> size (snd kv) < size node"
proof (cases node)
  case (JObj a kids)
  assume "kv \<in> set (entries_of node)"
  with JObj have "kv \<in> set kids" by (simp add: entries_of_def)
  then have "size (snd kv) < Suc (size_list (size_prod (\<lambda>x. 0) size) kids)"
    by (induction kids) auto
  with JObj show ?thesis by simp
next
  case (JArr vs)
  assume "kv \<in> set (entries_of node)"
  with JArr have "snd kv \<in> set vs"
    by (cases kv) (auto simp: entries_of_def dest: set_zip_rightD)
  with JArr show ?thesis by (simp add: size_member)
qed (simp_all add: entries_of_def)

lemma size_entries_item:
  assumes "kv \<in> set (entries_of node)" and "snd kv = JArr vs" and "item \<in> set vs"
  shows "size item < size node"
proof -
  have "size item < size (snd kv)"
    using assms(2,3) by (simp add: size_member)
  with size_entries_of [OF assms(1)] show ?thesis by simp
qed

function extractAllText :: "jv \<Rightarrow> string" where
  "extractAllText node =
     join_parts (concat (map (\<lambda>kv.
        if starts_with ''@_'' (fst kv) then []
        else if fst kv = ''#text'' then
          (case snd kv of JStr t \<Rightarrow> [t] | JNum n \<Rightarrow> [n] | _ \<Rightarrow> [])
        else
          (case snd kv of
             JStr t \<Rightarrow> [t]
           | JArr vs \<Rightarrow>
               concat (map (\<lambda>item. case item of JStr t \<Rightarrow> [t]
                                     | JObj a kids \<Rightarrow> [extractAllText item]
                                     | JArr ws \<Rightarrow> [extractAllText item]
                                     | _ \<Rightarrow> []) vs)
           | JObj a kids \<Rightarrow> [extractAllText (snd kv)]
           | _ \<Rightarrow> []))
       (entries_of node)))"
  by pat_completeness auto
termination
  apply (relation "measure size")
  apply (simp_all only: in_measure wf_measure)
  subgoal for node x a kids
    using size_entries_of [of x node] by simp
  subgoal for node x vs item a kids
    using size_entries_item [of x node vs item] by simp
  subgoal for node x vs item ws
    using size_entries_item [of x node vs item] by simp
  done


definition text_of :: "jv option \<Rightarrow> string option" where
  "text_of v = (case v of None \<Rightarrow> None | Some w \<Rightarrow> extractText w)"

function extractContentText :: "jv \<Rightarrow> string" where
  "extractContentText node =
     join_parts
       ((case get node ''#text'' of Some (JStr t) \<Rightarrow> [t] | _ \<Rightarrow> [])
        @ concat (map (\<lambda>c. case c of JStr t \<Rightarrow> [t]
                           | JObj a kids \<Rightarrow> [extractContentText c]
                           | JArr ws \<Rightarrow> [extractContentText c]
                           | _ \<Rightarrow> []) (items (get node ''content'')))
        @ concat (map (\<lambda>c. case c of JStr t \<Rightarrow> [t]
                           | JObj a kids \<Rightarrow> [extractAllText c]
                           | JArr ws \<Rightarrow> [extractAllText c]
                           | _ \<Rightarrow> []) (items (get node ''p'')))
        @ concat (map (\<lambda>c. case c of JStr t \<Rightarrow> [t]
                           | JObj a kids \<Rightarrow> [extractAllText c]
                           | JArr ws \<Rightarrow> [extractAllText c]
                           | _ \<Rightarrow> []) (items (get node ''block'')))
        @ concat (map (\<lambda>c. if is_object c then [extractContentText c] else [])
                      (case get node ''intro'' of None \<Rightarrow> [] | Some v \<Rightarrow> [v]))
        @ concat (map (\<lambda>c. if is_object c then [extractContentText c] else [])
                      (case get node ''wrapUp'' of None \<Rightarrow> [] | Some v \<Rightarrow> [v]))
        @ concat (map (\<lambda>para.
                    if is_object para then
                      (let paraNum = text_of (get para ''num'');
                           paraContent = extractContentText para
                       in if trim paraContent \<noteq> []
                          then [(if present paraNum then the paraNum @ '' '' else []) @ trim paraContent]
                          else [])
                    else []) (items (get node ''paragraph''))))"
  by pat_completeness auto
termination
  apply (relation "measure size")
  apply (simp_all only: in_measure wf_measure)
  apply (auto dest: size_items size_get size_get [OF sym] split: option.splits)
  done

definition section_record :: "jv \<Rightarrow> string \<Rightarrow> ParsedProvision list \<Rightarrow> ParsedProvision list" where
  "section_record el elementName provisions =
     (let eId = or_empty (attr el ''@_eId'');
          num = text_of (get el ''num'');
          heading = text_of (get el ''heading'');
          provisionRef = buildProvisionRef eId elementName num;
          content = extractContentText el
      in if trim content \<noteq> []
         then provisions @ [\<lparr>provision_ref = provisionRef,
                             p_section = (case num of Some n \<Rightarrow> n | None \<Rightarrow> provisionRef),
                             p_title = or_empty heading,
                             p_content = trim content\<rparr>]
         else provisions)"

definition subsection_record ::
  "string option \<Rightarrow> string option \<Rightarrow> ParsedProvision list \<Rightarrow> jv \<Rightarrow> ParsedProvision list" where
  "subsection_record num heading provisions sub =
     (if \<not> is_object sub then provisions
      else
        let subEId = or_empty (attr sub ''@_eId'');
            subNum = text_of (get sub ''num'');
            subContent = extractContentText sub
        in if trim subContent \<noteq> []
           then provisions @ [\<lparr>provision_ref = buildProvisionRef subEId ''subsection'' subNum,
                               p_section = or_empty num @ ''('' @ or_empty subNum @ '')'',
                               p_title = or_empty heading,
                               p_content = trim subContent\<rparr>]
           else provisions)"

definition processSections :: "jv \<Rightarrow> ParsedProvision list \<Rightarrow> string \<Rightarrow> ParsedProvision list" where
  "processSections node provisions parentContext =
     foldl (\<lambda>acc section.
        if \<not> is_object section then acc
        else foldl (subsection_record (text_of (get section ''num'')) (text_of (get section ''heading'')))
               (section_record section ''section'' acc)
               (items (get section ''subsection'')))
       provisions (items (get node ''section''))"

function extractProvisions :: "jv \<Rightarrow> ParsedProvision list \<Rightarrow> string \<Rightarrow> ParsedProvision list"
  and processElements :: "jv \<Rightarrow> string \<Rightarrow> ParsedProvision list \<Rightarrow> string \<Rightarrow> ParsedProvision list"
where
  "extractProvisions node provisions parentContext =
     (let p1 = processElements node ''part'' provisions parentContext;
          p2 = processElements node ''chapter'' p1 parentContext;
          p3 = processSections node p2 parentContext;
          p4 = processElements node ''hcontainer'' p3 parentContext
      in p4)"
| "processElements node elementName provisions parentContext =
     foldl (\<lambda>acc element.
        if \<not> is_object element then acc
        else
          let num = text_of (get element ''num'');
              context = (if parentContext \<noteq> []
                         then parentContext @ '' > '' @ elementName @ '' '' @ or_empty num
                         else elementName @ '' '' @ or_empty num);
              acc1 = (if elementName = ''section'' \<or> elementName = ''hcontainer''
                      then section_record element elementName acc else acc)
          in extractProvisions element acc1 context)
       provisions (items (get node elementName))"
  by pat_completeness auto
termination
  apply (relation "measure (\<lambda>x. case x of Inl (node, ps, c) \<Rightarrow> 2 * size node + 1
                                  | Inr (node, name, ps, c) \<Rightarrow> 2 * size node)")
  apply (auto dest: size_items)
  done

declare extractProvisions.simps [simp del] processElements.simps [simp del]
  extractContentText.simps [simp del] extractAllText.simps [simp del]

text \<open>
  What one element of a \<open>section\<close> array, and one element handled by \<open>processElements\<close>,
  add to the list of provisions.
\<close>

definition section_block :: "jv \<Rightarrow> ParsedProvision list" where
  "section_block section =
     (if \<not> is_object section then []
      else section_record section ''section'' []
           @ concat (map (subsection_record (text_of (get section ''num''))
                            (text_of (get section ''heading'')) [])
                         (items (get section ''subsection''))))"

definition element_context :: "string \<Rightarrow> string \<Rightarrow> jv \<Rightarrow> string" where
  "element_context parentContext elementName element =
     (if parentContext \<noteq> []
      then parentContext @ '' > '' @ elementName @ '' '' @ or_empty (text_of (get element ''num''))
      else elementName @ '' '' @ or_empty (text_of (get element ''num'')))"

definition element_block :: "string \<Rightarrow> string \<Rightarrow> jv \<Rightarrow> ParsedProvision list" where
  "element_block elementName parentContext element =
     (if \<not> is_object element then []
      else (if elementName = ''section'' \<or> elementName = ''hcontainer''
            then section_record element elementName [] else [])
           @ extractProvisions element [] (element_context parentContext elementName element))"

text \<open>
  The nodes for which the walker emits a record, in the walker's order, each with the
  kind under which the walker visits it: \<open>section\<close> and \<open>subsection\<close> nodes from
  \<open>processSections\<close>, \<open>hcontainer\<close> nodes from \<open>processElements\<close> (which is called for
  parts, chapters and hcontainers, and emits nothing for the first two). A node emits when
  its own content text is not blank. \<open>node_ref\<close> is the reference that
  \<open>buildProvisionRef\<close> gives a node: from its \<open>eId\<close> attribute, its kind and its number.
  \<open>canonical_id\<close> recognises the identifiers \<open>section-n\<close> and \<open>section-n-m\<close>.
\<close>

definition emits :: "jv \<Rightarrow> bool" where
  "emits el = (trim (extractContentText el) \<noteq> [])"

definition node_eId :: "jv \<times> string \<Rightarrow> string" where
  "node_eId p = or_empty (attr (fst p) ''@_eId'')"

definition node_ref :: "jv \<times> string \<Rightarrow> string" where
  "node_ref p = buildProvisionRef (node_eId p) (snd p) (text_of (get (fst p) ''num''))"

definition section_nodes :: "jv \<Rightarrow> (jv \<times> string) list" where
  "section_nodes section =
     (if \<not> is_object section then []
      else (if emits section then [(section, ''section'')] else [])
           @ concat (map (\<lambda>sub. if is_object sub \<and> emits sub then [(sub, ''subsection'')] else [])
                         (items (get section ''subsection''))))"

function emitting_nodes :: "jv \<Rightarrow> (jv \<times> string) list" where
  "emitting_nodes node =
     concat (map (\<lambda>el. if is_object el then emitting_nodes el else []) (items (get node ''part'')))
     @ concat (map (\<lambda>el. if is_object el then emitting_nodes el else []) (items (get node ''chapter'')))
     @ concat (map section_nodes (items (get node ''section'')))
     @ concat (map (\<lambda>el. if is_object el
                           then (if emits el then [(el, ''hcontainer'')] else []) @ emitting_nodes el
                           else [])
                   (items (get node ''hcontainer'')))"
  by pat_completeness auto
termination
  apply (relation "measure size")
  apply (auto dest: size_items)
  done

declare emitting_nodes.simps [simp del]

definition canonical_id :: "string \<Rightarrow> bool" where
  "canonical_id e =
     (starts_with ''section-'' e \<and>
      (let r = drop 8 e; ds = takeWhile digit r; rest = dropWhile digit r
       in ds \<noteq> [] \<and> (rest = [] \<or> (hd rest = CHR ''-'' \<and> tl rest \<noteq> [] \<and> list_all digit (tl rest)))))"

definition doc_a :: jv where
  "doc_a = JObj [] [
     (''section'', JArr [JObj [(''@_eId'', ''section-1'')]
        [(''num'', JNum ''1''), (''heading'', JStr ''Overview''),
         (''content'', JArr [JObj [] [(''p'', JArr [JStr ''This Act makes provision.''])]])]]),
     (''part'', JArr [JObj [(''@_eId'', ''part-1'')]
        [(''section'', JArr [JObj [(''@_eId'', ''section-2'')]
           [(''num'', JNum ''2''),
            (''intro'', JObj [] [(''p'', JArr [JStr ''In this Part''])]),
            (''subsection'', JArr [JObj [(''@_eId'', ''section-2-1'')]
               [(''num'', JStr ''(1)''), (''content'', JArr [JObj [] [(''p'', JArr [JStr ''Sub one''])]])]])]])]])]"


definition doc_b :: jv where
  "doc_b = JObj [] [
     (''section'', JArr [
        JObj [] [(''heading'', JStr ''Short title''),
                 (''content'', JArr [JObj [] [(''p'', JArr [JStr ''This Act may be cited.''])]])],
        JObj [] [(''heading'', JStr ''Commencement''),
                 (''content'', JArr [JObj [] [(''p'', JArr [JStr ''This Act comes into force.''])]])]])]"

definition feed_with_stale_link :: jv where
  "feed_with_stale_link = JObj [] [
     (''feed'', JObj [] [
        (''link'', JArr [JObj [(''@_rel'', ''self''), (''@_href'', ''https://www.legislation.gov.uk/ukpga/data.feed?page=9'')] [],
                         JObj [(''@_rel'', ''next''), (''@_href'', ''https://www.legislation.gov.uk/ukpga/data.feed?page=10'')] []]),
        (''entry'', JArr [JObj [] [(''title'', JStr ''Draft''), (''id'', JStr ''urn:draft'')]])])]"


section \<open>Reasoning about matches\<close>

text \<open>
  Facts about the matcher that the proofs below share: when a state is among the matches
  of a pattern, what a match consumes, and how a search reports its first match.
\<close>

lemma in_rm_Seq: "y \<in> set (rm (Seq a b) x) \<longleftrightarrow> (\<exists>z \<in> set (rm a x). y \<in> set (rm b z))"
  by auto

lemma in_rm_Atom:
  "y \<in> set (rm (Atom p) (pre, s, c)) \<longleftrightarrow> (\<exists>a as. s = a # as \<and> p a \<and> y = (a # pre, as, c))"
  by (cases s) auto

lemma in_rm_Chr:
  "y \<in> set (rm (Chr d) (pre, s, c)) \<longleftrightarrow> (\<exists>as. s = d # as \<and> y = (d # pre, as, c))"
  by (cases s) (auto simp: Chr_def)

lemma in_rm_Group:
  "y \<in> set (rm (Group n a) x) \<longleftrightarrow>
     (\<exists>z \<in> set (rm a x). y = (fst z, fst (snd z),
        (n, take (length (fst (snd x)) - length (fst (snd z))) (fst (snd x))) # snd (snd z)))"
  by auto

text \<open>Repetition: more fuel only adds matches, and every iteration can be prefixed.\<close>

lemma star_Suc_set:
  "set (star g f (Suc n) x)
     = insert x (\<Union>y \<in> {y \<in> set (f x). length (fst (snd y)) < length (fst (snd x))}. set (star g f n y))"
  by (cases g) (auto simp: Let_def)

lemma star_0_set: "set (star g f 0 x) = {x}"
  by simp

declare star.simps [simp del]

lemma star_self: "x \<in> set (star g f n x)"
  by (cases n) (simp_all add: star_0_set star_Suc_set)

lemma star_step:
  "y \<in> set (f x) \<Longrightarrow> length (fst (snd y)) < length (fst (snd x)) \<Longrightarrow> z \<in> set (star g f n y)
     \<Longrightarrow> z \<in> set (star g f (Suc n) x)"
  unfolding star_Suc_set by blast

lemma star_cases:
  assumes "z \<in> set (star g f n x)"
  obtains "z = x"
  | m y where "n = Suc m" "y \<in> set (f x)" "length (fst (snd y)) < length (fst (snd x))"
      "z \<in> set (star g f m y)"
proof (cases n)
  case 0
  with assms have "z = x" by (simp add: star_0_set)
  then show ?thesis by (rule that(1))
next
  case (Suc m)
  with assms have "z \<in> set (star g f (Suc m) x)" by simp
  then have "z = x \<or> (\<exists>y. y \<in> set (f x) \<and> length (fst (snd y)) < length (fst (snd x))
      \<and> z \<in> set (star g f m y))"
    unfolding star_Suc_set by blast
  then show ?thesis
    using that Suc by blast
qed

lemma star_mono: "z \<in> set (star g f n x) \<Longrightarrow> z \<in> set (star g f (Suc n) x)"
proof (induction n arbitrary: x)
  case 0
  then have "z = x" by (simp add: star_0_set)
  then show ?case by (simp add: star_self)
next
  case (Suc n)
  from Suc.prems show ?case
  proof (cases rule: star_cases)
    case 1
    then show ?thesis by (simp add: star_self)
  next
    case (2 m y)
    then have "z \<in> set (star g f (Suc n) y)" using Suc.IH by simp
    with 2(2,3) show ?thesis by (rule star_step)
  qed
qed

lemma star_mono_le: "n \<le> m \<Longrightarrow> z \<in> set (star g f n x) \<Longrightarrow> z \<in> set (star g f m x)"
proof (induction m)
  case 0
  then show ?case by simp
next
  case (Suc m)
  show ?case
  proof (cases "n = Suc m")
    case True
    with Suc.prems show ?thesis by simp
  next
    case False
    with Suc.prems have "n \<le> m" by simp
    then have "z \<in> set (star g f m x)" using Suc.IH Suc.prems by simp
    then show ?thesis by (rule star_mono)
  qed
qed

lemma in_rm_Star_self: "x \<in> set (rm (Star g a) x)"
  by (simp add: star_self)

lemma in_rm_Star_step:
  assumes "y \<in> set (rm a x)" and "length (fst (snd y)) < length (fst (snd x))"
    and "z \<in> set (rm (Star g a) y)"
  shows "z \<in> set (rm (Star g a) x)"
proof -
  obtain n where n: "length (fst (snd x)) = Suc n"
    using assms(2) by (cases "length (fst (snd x))") simp_all
  have le: "length (fst (snd y)) \<le> n"
    using assms(2) n by simp
  have "z \<in> set (star g (rm a) (length (fst (snd y))) y)"
    using assms(3) by (simp only: rm.simps)
  with le have "z \<in> set (star g (rm a) n y)"
    by (rule star_mono_le)
  with assms(1,2) have "z \<in> set (star g (rm a) (Suc n) x)"
    by (rule star_step)
  then show ?thesis
    by (simp only: rm.simps n)
qed

text \<open>What a match consumes.\<close>

primrec alph :: "re \<Rightarrow> char \<Rightarrow> bool" where
  "alph (Atom p) c = p c"
| "alph Eps c = False"
| "alph (Seq a b) c = (alph a c \<or> alph b c)"
| "alph (Alt a b) c = (alph a c \<or> alph b c)"
| "alph (Star g a) c = alph a c"
| "alph (Group n a) c = alph a c"
| "alph Bol c = False"
| "alph Eol c = False"
| "alph WordB c = False"

primrec groupfree :: "re \<Rightarrow> bool" where
  "groupfree (Atom p) = True"
| "groupfree Eps = True"
| "groupfree (Seq a b) = (groupfree a \<and> groupfree b)"
| "groupfree (Alt a b) = (groupfree a \<and> groupfree b)"
| "groupfree (Star g a) = groupfree a"
| "groupfree (Group n a) = False"
| "groupfree Bol = True"
| "groupfree Eol = True"
| "groupfree WordB = True"

definition consumes :: "(char \<Rightarrow> bool) \<Rightarrow> bool \<Rightarrow> st \<Rightarrow> st \<Rightarrow> bool" where
  "consumes P gf x y =
     (\<exists>u. fst (snd x) = u @ fst (snd y) \<and> fst y = rev u @ fst x \<and> list_all P u
          \<and> (gf \<longrightarrow> snd (snd y) = snd (snd x)))"

lemma consumes_refl: "consumes P gf x x"
  by (auto simp: consumes_def)

lemma consumes_trans: "consumes P gf x y \<Longrightarrow> consumes P gf y z \<Longrightarrow> consumes P gf x z"
  unfolding consumes_def
  by (elim exE conjE, rule_tac x = "u @ ua" in exI) auto

lemma consumes_weaken:
  "consumes P gf x y \<Longrightarrow> (\<And>c. P c \<Longrightarrow> Q c) \<Longrightarrow> (gf' \<Longrightarrow> gf) \<Longrightarrow> consumes Q gf' x y"
  unfolding consumes_def list_all_iff by blast

lemma star_consumes:
  assumes "\<And>x y. y \<in> set (f x) \<Longrightarrow> consumes P gf x y"
  shows "z \<in> set (star g f n x) \<Longrightarrow> consumes P gf x z"
proof (induction n arbitrary: x)
  case 0
  then show ?case by (simp add: star_0_set consumes_refl)
next
  case (Suc n)
  from Suc.prems show ?case
  proof (cases rule: star_cases)
    case 1
    then show ?thesis by (simp add: consumes_refl)
  next
    case (2 m y)
    from 2(2) have "consumes P gf x y" by (rule assms)
    moreover from 2 have "consumes P gf y z" using Suc.IH by simp
    ultimately show ?thesis by (rule consumes_trans)
  qed
qed

lemma rm_consumes: "y \<in> set (rm r x) \<Longrightarrow> consumes (alph r) (groupfree r) x y"
proof (induction r arbitrary: x y)
  case (Atom p)
  obtain pre s c where x: "x = (pre, s, c)" by (cases x) auto
  from Atom show ?case
    unfolding x in_rm_Atom by (auto simp: consumes_def)
next
  case Eps
  then show ?case by (simp add: consumes_refl)
next
  case (Seq a b)
  from Seq.prems obtain z where z: "z \<in> set (rm a x)" "y \<in> set (rm b z)"
    unfolding in_rm_Seq by blast
  have "consumes (alph (Seq a b)) (groupfree (Seq a b)) x z"
    using Seq.IH(1) [OF z(1)] by (rule consumes_weaken) simp_all
  moreover have "consumes (alph (Seq a b)) (groupfree (Seq a b)) z y"
    using Seq.IH(2) [OF z(2)] by (rule consumes_weaken) simp_all
  ultimately show ?case by (rule consumes_trans)
next
  case (Alt a b)
  from Alt.prems consider "y \<in> set (rm a x)" | "y \<in> set (rm b x)"
    by auto
  then show ?case
  proof cases
    case 1
    show ?thesis using Alt.IH(1) [OF 1] by (rule consumes_weaken) simp_all
  next
    case 2
    show ?thesis using Alt.IH(2) [OF 2] by (rule consumes_weaken) simp_all
  qed
next
  case (Star g a)
  from Star.prems have "y \<in> set (star g (rm a) (length (fst (snd x))) x)"
    by (simp only: rm.simps)
  then have "consumes (alph a) (groupfree a) x y"
    by (rule star_consumes [rotated]) (rule Star.IH)
  then show ?case by simp
next
  case (Group n a)
  from Group.prems obtain z where z: "z \<in> set (rm a x)"
    and y: "y = (fst z, fst (snd z),
        (n, take (length (fst (snd x)) - length (fst (snd z))) (fst (snd x))) # snd (snd z))"
    unfolding in_rm_Group by blast
  show ?case
    using Group.IH [OF z] by (auto simp: consumes_def y)
next
  case Bol
  then show ?case by (auto simp: consumes_refl split: if_splits)
next
  case Eol
  then show ?case by (auto simp: consumes_refl split: if_splits)
next
  case WordB
  obtain pre s c where x: "x = (pre, s, c)" by (cases x) auto
  from WordB show ?case
    unfolding x by (auto simp: consumes_refl split: if_splits)
qed

text \<open>A capture group records what its body consumes.\<close>

lemma rm_Group_consumes:
  assumes "y \<in> set (rm (Group n a) x)" and "groupfree a"
  shows "\<exists>u. fst (snd x) = u @ fst (snd y) \<and> fst y = rev u @ fst x \<and> list_all (alph a) u
             \<and> snd (snd y) = (n, u) # snd (snd x)"
proof -
  from assms(1) obtain z where z: "z \<in> set (rm a x)"
    and y: "y = (fst z, fst (snd z),
        (n, take (length (fst (snd x)) - length (fst (snd z))) (fst (snd x))) # snd (snd z))"
    unfolding in_rm_Group by blast
  from rm_consumes [OF z] assms(2) obtain u where
    u: "fst (snd x) = u @ fst (snd z)" "fst z = rev u @ fst x" "list_all (alph a) u"
       "snd (snd z) = snd (snd x)"
    unfolding consumes_def by blast
  have "take (length (fst (snd x)) - length (fst (snd z))) (fst (snd x)) = u"
    by (simp add: u(1))
  with u show ?thesis
    by (intro exI [of _ u]) (simp add: y)
qed

text \<open>Repetition of a character class.\<close>

lemma rm_Atom_Cons: "rm (Atom p) (pre, a # as, c) = (if p a then [(a # pre, as, c)] else [])"
  by simp

lemma rm_Atom_Nil: "rm (Atom p) (pre, [], c) = []"
  by simp

lemma star_atom_set:
  "length s \<le> n \<Longrightarrow>
   set (star g (rm (Atom p)) n (pre, s, c))
     = {(rev (take k s) @ pre, drop k s, c) | k. k \<le> length (takeWhile p s)}"
proof (induction s arbitrary: pre n)
  case Nil
  show ?case
  proof (cases n)
    case 0
    then show ?thesis by (simp add: star_0_set)
  next
    case (Suc m)
    then show ?thesis
      unfolding Suc star_Suc_set rm_Atom_Nil by simp
  qed
next
  case (Cons a as)
  then obtain m where n: "n = Suc m" and m: "length as \<le> m"
    by (cases n) auto
  have ih: "set (star g (rm (Atom p)) m (a # pre, as, c))
              = {(rev (take k as) @ a # pre, drop k as, c) | k. k \<le> length (takeWhile p as)}"
    by (rule Cons.IH [OF m])
  show ?case
  proof (cases "p a")
    case True
    have "set (star g (rm (Atom p)) n (pre, a # as, c))
            = insert (pre, a # as, c) (set (star g (rm (Atom p)) m (a # pre, as, c)))"
      unfolding n star_Suc_set rm_Atom_Cons using True by (auto simp del: rm.simps)
    also have "\<dots> = {(rev (take k (a # as)) @ pre, drop k (a # as), c) | k.
                        k \<le> length (takeWhile p (a # as))}"
      unfolding ih
    proof (intro set_eqI iffI)
      fix y
      assume "y \<in> insert (pre, a # as, c)
                {(rev (take k as) @ a # pre, drop k as, c) | k. k \<le> length (takeWhile p as)}"
      then consider "y = (pre, a # as, c)"
        | k where "k \<le> length (takeWhile p as)" "y = (rev (take k as) @ a # pre, drop k as, c)"
        by blast
      then show "y \<in> {(rev (take k (a # as)) @ pre, drop k (a # as), c) | k.
                        k \<le> length (takeWhile p (a # as))}"
      proof cases
        case 1
        have "y = (rev (take 0 (a # as)) @ pre, drop 0 (a # as), c)" using 1 by simp
        then show ?thesis by blast
      next
        case 2
        have "y = (rev (take (Suc k) (a # as)) @ pre, drop (Suc k) (a # as), c)"
          "Suc k \<le> length (takeWhile p (a # as))"
          using 2 True by simp_all
        then show ?thesis by blast
      qed
    next
      fix y
      assume "y \<in> {(rev (take k (a # as)) @ pre, drop k (a # as), c) | k.
                        k \<le> length (takeWhile p (a # as))}"
      then obtain k where k: "k \<le> length (takeWhile p (a # as))"
        "y = (rev (take k (a # as)) @ pre, drop k (a # as), c)"
        by blast
      show "y \<in> insert (pre, a # as, c)
                {(rev (take k as) @ a # pre, drop k as, c) | k. k \<le> length (takeWhile p as)}"
      proof (cases k)
        case 0
        with k show ?thesis by simp
      next
        case (Suc j)
        with k True have "j \<le> length (takeWhile p as)"
          "y = (rev (take j as) @ a # pre, drop j as, c)"
          by simp_all
        then show ?thesis by blast
      qed
    qed
    finally show ?thesis .
  next
    case False
    have "set (star g (rm (Atom p)) n (pre, a # as, c)) = {(pre, a # as, c)}"
      unfolding n star_Suc_set rm_Atom_Cons using False by (auto simp del: rm.simps)
    then show ?thesis using False by (simp del: rm.simps)
  qed
qed

lemma in_rm_Star_Atom:
  "y \<in> set (rm (Star g (Atom p)) (pre, s, c)) \<longleftrightarrow>
     (\<exists>k \<le> length (takeWhile p s). y = (rev (take k s) @ pre, drop k s, c))"
proof -
  have "set (rm (Star g (Atom p)) (pre, s, c)) = set (star g (rm (Atom p)) (length s) (pre, s, c))"
    by (simp only: rm.simps fst_conv snd_conv)
  then show ?thesis
    unfolding star_atom_set [OF le_refl] by blast
qed

lemma takeWhile_all: "list_all p u \<Longrightarrow> takeWhile p (u @ r) = u @ takeWhile p r"
  by (induction u) auto

lemma rm_Star_Atom_mem:
  "list_all p u \<Longrightarrow> (rev u @ pre, r, c) \<in> set (rm (Star g (Atom p)) (pre, u @ r, c))"
  unfolding in_rm_Star_Atom
  by (rule exI [of _ "length u"]) (simp add: takeWhile_all)

lemma rm_Plus_Atom_mem:
  assumes "u \<noteq> []" and "list_all p u"
  shows "(rev u @ pre, r, c) \<in> set (rm (Plus g (Atom p)) (pre, u @ r, c))"
proof -
  obtain a as where u: "u = a # as" using assms(1) by (cases u) auto
  have 1: "(a # pre, as @ r, c) \<in> set (rm (Atom p) (pre, u @ r, c))"
    using assms(2) by (simp add: u)
  have "(rev as @ a # pre, r, c) \<in> set (rm (Star g (Atom p)) (a # pre, as @ r, c))"
    using assms(2) by (intro rm_Star_Atom_mem) (simp add: u)
  then have 2: "(rev u @ pre, r, c) \<in> set (rm (Star g (Atom p)) (a # pre, as @ r, c))"
    by (simp add: u)
  show ?thesis
    unfolding Plus_def in_rm_Seq using 1 2 by blast
qed

lemma in_rm_Eps: "y \<in> set (rm Eps x) \<longleftrightarrow> y = x"
  by (simp add: rm.simps)

lemma in_rm_Alt: "y \<in> set (rm (Alt a b) x) \<longleftrightarrow> y \<in> set (rm a x) \<or> y \<in> set (rm b x)"
  by (simp add: rm.simps)

lemma in_rm_Opt: "y \<in> set (rm (Opt a) x) \<longleftrightarrow> y \<in> set (rm a x) \<or> y = x"
  by (auto simp: Opt_def rm.simps)

lemma in_rm_Eol: "y \<in> set (rm Eol x) \<longleftrightarrow> y = x \<and> fst (snd x) = []"
  by (cases "fst (snd x) = []") (simp_all add: rm.simps)

lemma in_rm_Bol: "y \<in> set (rm Bol x) \<longleftrightarrow> y = x \<and> fst x = []"
  by (cases "fst x = []") (simp_all add: rm.simps)

declare rm.simps [simp del]

lemma in_rm_Lit:
  "y \<in> set (rm (Lit l) (pre, s, c)) \<longleftrightarrow> (\<exists>r. s = l @ r \<and> y = (rev l @ pre, r, c))"
proof (induction l arbitrary: pre s)
  case Nil
  show ?case by (auto simp: Lit_def in_rm_Eps)
next
  case (Cons a l)
  have L: "Lit (a # l) = Seq (Chr a) (Lit l)"
    by (simp add: Lit_def)
  show ?case
  proof
    assume "y \<in> set (rm (Lit (a # l)) (pre, s, c))"
    then obtain z where z: "z \<in> set (rm (Chr a) (pre, s, c))" and y: "y \<in> set (rm (Lit l) z)"
      unfolding L in_rm_Seq by blast
    from z obtain as where as: "s = a # as" "z = (a # pre, as, c)"
      unfolding in_rm_Chr by blast
    from y obtain r where "as = l @ r" "y = (rev l @ a # pre, r, c)"
      unfolding as Cons.IH by blast
    then show "\<exists>r. s = (a # l) @ r \<and> y = (rev (a # l) @ pre, r, c)"
      using as by simp
  next
    assume "\<exists>r. s = (a # l) @ r \<and> y = (rev (a # l) @ pre, r, c)"
    then obtain r where r: "s = a # l @ r" "y = (rev l @ a # pre, r, c)"
      by auto
    have "(a # pre, l @ r, c) \<in> set (rm (Chr a) (pre, s, c))"
      unfolding in_rm_Chr using r by simp
    moreover have "y \<in> set (rm (Lit l) (a # pre, l @ r, c))"
      unfolding Cons.IH using r by simp
    ultimately show "y \<in> set (rm (Lit (a # l)) (pre, s, c))"
      unfolding L in_rm_Seq by blast
  qed
qed

lemma Lit_intro: "(rev l @ pre, r, c) \<in> set (rm (Lit l) (pre, l @ r, c))"
  unfolding in_rm_Lit by simp

lemma Seqs_intro:
  "z \<in> set (rm a x) \<Longrightarrow> y \<in> set (rm (Seqs rs) z) \<Longrightarrow> y \<in> set (rm (Seqs (a # rs)) x)"
  by (auto simp: Seqs_def in_rm_Seq)

lemma Seqs_Nil_intro: "x \<in> set (rm (Seqs []) x)"
  by (simp add: Seqs_def in_rm_Eps)

lemma Seqs_end_intro: "y \<in> set (rm a x) \<Longrightarrow> y \<in> set (rm (Seqs [a]) x)"
  by (auto simp: Seqs_def in_rm_Seq in_rm_Eps)

lemma Seq_intro: "z \<in> set (rm a x) \<Longrightarrow> y \<in> set (rm b z) \<Longrightarrow> y \<in> set (rm (Seq a b) x)"
  unfolding in_rm_Seq by blast

lemma Eol_intro: "(pre, [], c) \<in> set (rm Eol (pre, [], c))"
  by (simp add: in_rm_Eol)

lemma Bol_intro: "([], s, c) \<in> set (rm Bol ([], s, c))"
  by (simp add: in_rm_Bol)

lemma Chr_intro: "(d # pre, r, c) \<in> set (rm (Chr d) (pre, d # r, c))"
  by (simp add: in_rm_Chr)

lemma Atom_intro: "p d \<Longrightarrow> (d # pre, r, c) \<in> set (rm (Atom p) (pre, d # r, c))"
  by (simp add: in_rm_Atom)

lemma Group_intro:
  "(pre', r, c) \<in> set (rm a (pre, u @ r, c)) \<Longrightarrow> (pre', r, (n, u) # c) \<in> set (rm (Group n a) (pre, u @ r, c))"
  unfolding in_rm_Group by force

lemma in_rm_Seqs_Cons: "y \<in> set (rm (Seqs (a # rs)) x) \<longleftrightarrow> (\<exists>z \<in> set (rm a x). y \<in> set (rm (Seqs rs) z))"
  by (simp add: Seqs_def in_rm_Seq)

lemma in_rm_Seqs_Nil: "y \<in> set (rm (Seqs []) x) \<longleftrightarrow> y = x"
  by (simp add: Seqs_def in_rm_Eps)

lemma rm_Plus_Atom_elim:
  assumes "y \<in> set (rm (Plus g (Atom p)) x)"
  shows "\<exists>u. u \<noteq> [] \<and> list_all p u \<and> fst (snd x) = u @ fst (snd y) \<and> fst y = rev u @ fst x
             \<and> snd (snd y) = snd (snd x)"
proof -
  obtain pre s c where x: "x = (pre, s, c)" by (cases x) auto
  from assms obtain a as where s: "s = a # as" and a: "p a"
    and y: "y \<in> set (rm (Star g (Atom p)) (a # pre, as, c))"
    unfolding x Plus_def in_rm_Seq by (auto simp: in_rm_Atom)
  from rm_consumes [OF y] obtain u where
    u: "as = u @ fst (snd y)" "fst y = rev u @ a # pre" "list_all p u" "snd (snd y) = c"
    unfolding consumes_def by (auto simp: list_all_iff)
  show ?thesis
    by (rule exI [of _ "a # u"]) (use s a u in \<open>simp add: x\<close>)
qed

lemma rm_Star_Atom_elim:
  assumes "y \<in> set (rm (Star g (Atom p)) x)"
  shows "\<exists>u. list_all p u \<and> fst (snd x) = u @ fst (snd y) \<and> fst y = rev u @ fst x
             \<and> snd (snd y) = snd (snd x)"
  using rm_consumes [OF assms] unfolding consumes_def by (auto simp: list_all_iff)

text \<open>The first match of a search.\<close>

lemma exec_first:
  assumes "rm r ([], s, []) \<noteq> []" and "\<And>y. y \<in> set (rm r ([], s, [])) \<Longrightarrow> Q y"
  shows "\<exists>y. exec r s = Some y \<and> Q y"
proof -
  obtain y ys where l: "rm r ([], s, []) = y # ys"
    using assms(1) by (cases "rm r ([], s, [])") auto
  then have "exec r s = Some y"
    by (simp add: exec_def)
  moreover have "Q y"
    by (rule assms(2)) (simp add: l)
  ultimately show ?thesis by blast
qed

lemma exec_from_None:
  "(\<And>k. k \<le> length s \<Longrightarrow> rm r (rev (take k s) @ pre, drop k s, []) = []) \<Longrightarrow> exec_from r pre s = None"
proof (induction s arbitrary: pre)
  case Nil
  from Nil [of 0] show ?case by simp
next
  case (Cons a as)
  have 0: "rm r (pre, a # as, []) = []"
    using Cons.prems [of 0] by simp
  have "exec_from r (a # pre) as = None"
  proof (rule Cons.IH)
    fix k
    assume "k \<le> length as"
    then show "rm r (rev (take k as) @ a # pre, drop k as, []) = []"
      using Cons.prems [of "Suc k"] by simp
  qed
  with 0 show ?case by simp
qed

lemma no_match_first_char:
  assumes "\<And>pre' t c. t = [] \<or> hd t \<noteq> ch \<Longrightarrow> rm r (pre', t, c) = []"
    and "ch \<notin> set s"
  shows "exec_from r pre s = None"
proof (rule exec_from_None)
  fix k
  assume "k \<le> length s"
  have "drop k s = [] \<or> hd (drop k s) \<noteq> ch"
  proof (cases "drop k s")
    case Nil
    then show ?thesis by simp
  next
    case (Cons b bs)
    then have "b \<in> set (drop k s)" by simp
    then have "b \<in> set s" by (rule in_set_dropD)
    with assms(2) Cons show ?thesis by auto
  qed
  then show "rm r (rev (take k s) @ pre, drop k s, []) = []"
    by (rule assms(1))
qed



section \<open>Scenario: a pinpoint citation\<close>

text \<open>
  C9. Parsing \<open>s. 1(1)(a) Data Protection Act 2018\<close> gives a valid citation with section
  \<open>1\<close>, subsection \<open>1\<close> and paragraph \<open>a\<close>, and formatting it with the pinpoint convention
  gives exactly \<open>s. 1(1)(a)\<close>.
\<close>

theorem parse_format_pinpoint_scenario:
  "valid (parseCitation ''s. 1(1)(a) Data Protection Act 2018'') \<and>
   section' (parseCitation ''s. 1(1)(a) Data Protection Act 2018'') = Some ''1'' \<and>
   subsection' (parseCitation ''s. 1(1)(a) Data Protection Act 2018'') = Some ''1'' \<and>
   paragraph' (parseCitation ''s. 1(1)(a) Data Protection Act 2018'') = Some ''a'' \<and>
   formatCitation (parseCitation ''s. 1(1)(a) Data Protection Act 2018'') pinpoint = ''s. 1(1)(a)''"
  by code_simp

theorem parse_format_pinpoint_scenario_witness:
  "formatCitation (parseCitation ''s. 1(1)(a) Data Protection Act 2018'') pinpoint = ''s. 1(1)(a)''"
  using parse_format_pinpoint_scenario by simp


section \<open>Validation against the provision store\<close>

lemma find_document_None:
  assumes "list_all (\<lambda>d. \<not> sql_like pat (doc_title d)) (legal_documents db)"
    and "utf8_length pat \<le> SQLITE_MAX_LIKE_PATTERN_LENGTH"
  shows "find_document db pat = Inr None"
  using assms by (simp add: find_document_def find_None_iff list_all_iff)

text \<open>
  Within the length limit of \<open>LIKE\<close>, a citation that parses as valid and whose title and
  year match no document of the store gets the not-found result, with one warning that
  names the missing title and year.
\<close>

lemma validate_missing_document:
  assumes "valid (parseCitation cit)"
    and "list_all (\<lambda>d. \<not> sql_like (document_pattern (parseCitation cit)) (doc_title d))
           (legal_documents db)"
    and "utf8_length (document_pattern (parseCitation cit)) \<le> SQLITE_MAX_LIKE_PATTERN_LENGTH"
  shows "validateCitation db cit =
           Inr \<lparr>citation = parseCitation cit, document_exists = False, provision_exists = False,
                document_title = None, status = None,
                warnings = [''Document '' @ [CHR 0x22] @ the (title (parseCitation cit)) @ '' ''
                              @ show_number (the (year (parseCitation cit))) @ [CHR 0x22]
                              @ '' not found in database'']\<rparr>
         \<and> title (parseCitation cit) \<noteq> None \<and> year (parseCitation cit) \<noteq> None"
proof -
  have ty: "title (parseCitation cit) \<noteq> None \<and> year (parseCitation cit) \<noteq> None"
    using assms(1)
    by (auto simp: parseCitation_def parseSection_def Let_def split: option.splits)
  have "find_document db (document_pattern (parseCitation cit)) = Inr None"
    using assms(2,3) by (rule find_document_None)
  then show ?thesis
    using assms(1) ty
    by (auto simp: validateCitation_def Let_def not_found_warning_def tmpl_def tmpl_number_def)
qed

lemma validate_missing_document_example:
  "validateCitation example_db ''Section 1, Totally Unknown Act 2099'' =
     Inr \<lparr>citation = parseCitation ''Section 1, Totally Unknown Act 2099'',
          document_exists = False, provision_exists = False, document_title = None, status = None,
          warnings = [''Document '' @ [CHR 0x22] @ ''Totally Unknown Act 2099'' @ [CHR 0x22]
                        @ '' not found in database'']\<rparr>"
proof -
  have v: "valid (parseCitation ''Section 1, Totally Unknown Act 2099'')"
    by code_simp
  have n: "list_all (\<lambda>d. \<not> sql_like (document_pattern (parseCitation ''Section 1, Totally Unknown Act 2099''))
                          (doc_title d)) (legal_documents example_db)"
    by code_simp
  have l: "utf8_length (document_pattern (parseCitation ''Section 1, Totally Unknown Act 2099''))
             \<le> SQLITE_MAX_LIKE_PATTERN_LENGTH"
    by code_simp
  have t: "the (title (parseCitation ''Section 1, Totally Unknown Act 2099'')) = ''Totally Unknown Act''"
    by code_simp
  have y: "show_number (the (year (parseCitation ''Section 1, Totally Unknown Act 2099''))) = ''2099''"
    by code_simp
  show ?thesis
    using validate_missing_document [OF v n l] t y by simp
qed

text \<open>
  C10. Validation ignores subsection and paragraph: two citations whose valid parses agree
  on title, year and section have the same outcome against the same store. Either both
  queries fail with the same error, or both return, with the same \<open>document_exists\<close>,
  \<open>provision_exists\<close>, \<open>status\<close> and \<open>warnings\<close>.
\<close>

theorem validate_ignores_subsection_paragraph:
  assumes "valid (parseCitation c1)" and "valid (parseCitation c2)"
    and "title (parseCitation c1) = title (parseCitation c2)"
    and "year (parseCitation c1) = year (parseCitation c2)"
    and "section' (parseCitation c1) = section' (parseCitation c2)"
  shows "(\<exists>e. validateCitation db c1 = Inl e \<and> validateCitation db c2 = Inl e)
       \<or> (\<exists>r1 r2. validateCitation db c1 = Inr r1 \<and> validateCitation db c2 = Inr r2
            \<and> document_exists r1 = document_exists r2
            \<and> provision_exists r1 = provision_exists r2
            \<and> status r1 = status r2
            \<and> warnings r1 = warnings r2)"
proof -
  have p: "document_pattern (parseCitation c1) = document_pattern (parseCitation c2)"
    using assms(3,4) by (simp add: document_pattern_def year_text_def)
  have w: "not_found_warning (parseCitation c1) = not_found_warning (parseCitation c2)"
    using assms(3,4) by (simp add: not_found_warning_def)
  show ?thesis
  proof (cases "find_document db (document_pattern (parseCitation c2))")
    case (Inl e)
    then show ?thesis
      using assms(1,2) p by (simp add: validateCitation_def Let_def)
  next
    case (Inr found)
    then show ?thesis
      using assms(1,2,5) p w
      by (cases found) (simp_all add: validateCitation_def Let_def)
  qed
qed

theorem validate_ignores_subsection_paragraph_witness:
  "subsection' (parseCitation ''s. 3(1)(a) Data Protection Act 2018'')
     \<noteq> subsection' (parseCitation ''Section 3(2), Data Protection Act 2018'') \<and>
   paragraph' (parseCitation ''s. 3(1)(a) Data Protection Act 2018'')
     \<noteq> paragraph' (parseCitation ''Section 3(2), Data Protection Act 2018'') \<and>
   (\<exists>r1 r2. validateCitation example_db ''s. 3(1)(a) Data Protection Act 2018'' = Inr r1
      \<and> validateCitation example_db ''Section 3(2), Data Protection Act 2018'' = Inr r2
      \<and> provision_exists r1 \<and> provision_exists r2
      \<and> document_exists r1 = document_exists r2
      \<and> status r1 = status r2
      \<and> warnings r1 = warnings r2)"
proof -
  have a: "parseCitation ''s. 3(1)(a) Data Protection Act 2018'' =
      \<lparr>valid = True, ctype = statute, title = Some ''Data Protection Act'', year = Some (Num 2018),
       section' = Some ''3'', subsection' = Some ''1'', paragraph' = Some ''a'', error = None\<rparr>"
    by code_simp
  have b: "parseCitation ''Section 3(2), Data Protection Act 2018'' =
      \<lparr>valid = True, ctype = statute, title = Some ''Data Protection Act'', year = Some (Num 2018),
       section' = Some ''3'', subsection' = Some ''2'', paragraph' = None, error = None\<rparr>"
    by code_simp
  have "case validateCitation example_db ''s. 3(1)(a) Data Protection Act 2018'' of
          Inl e \<Rightarrow> False | Inr r \<Rightarrow> provision_exists r"
    by code_simp
  then have e: "\<exists>r. validateCitation example_db ''s. 3(1)(a) Data Protection Act 2018'' = Inr r
             \<and> provision_exists r"
    by (cases "validateCitation example_db ''s. 3(1)(a) Data Protection Act 2018''") simp_all
  have "(\<exists>e. validateCitation example_db ''s. 3(1)(a) Data Protection Act 2018'' = Inl e
            \<and> validateCitation example_db ''Section 3(2), Data Protection Act 2018'' = Inl e)
       \<or> (\<exists>r1 r2. validateCitation example_db ''s. 3(1)(a) Data Protection Act 2018'' = Inr r1
            \<and> validateCitation example_db ''Section 3(2), Data Protection Act 2018'' = Inr r2
            \<and> document_exists r1 = document_exists r2
            \<and> provision_exists r1 = provision_exists r2
            \<and> status r1 = status r2
            \<and> warnings r1 = warnings r2)"
    by (rule validate_ignores_subsection_paragraph) (simp_all add: a b)
  with e show ?thesis
    by (auto simp: a b)
qed


section \<open>Queries without tokens\<close>

text \<open>
  C8. The query \<open>!!!\<close> has no explicit search syntax and its tokenisation (split on white
  space, strip) has no non-empty token, yet the result is not the trimmed query as the
  sole variant: empty tokens are filtered out before the stripping, so the stripped token
  stays, the primary expression is an empty quoted prefix and there is a fallback.
\<close>

theorem fts_stripped_token_kept:
  "\<not> test EXPLICIT_FTS_SYNTAX (trim ''!!!'') \<and>
   list_all (\<lambda>t. t = []) (stripped_tokens ''!!!'') \<and>
   buildFtsQueryVariants ''!!!'' = \<lparr>primary = [CHR 0x22, CHR 0x22, CHR ''*''], fallback = Some ''*''\<rparr>"
  by code_simp


section \<open>The flattener on nested inline markup\<close>

text \<open>
  C5. The flattener is not idempotent. A cross-reference inside an insertion is flattened
  only in part by one application (the opening tag of the insertion is paired with the
  closing tag of the reference), and a second application changes the text again.
\<close>

theorem flatten_nested_not_idempotent:
  "flattenInlineElements ''<p>subject to the <ins><ref>UK GDPR</ref></ins>.</p>''
     = ''<p>subject to the <ref>UK GDPR</ins>.</p>'' \<and>
   flattenInlineElements ''<p>subject to the <ref>UK GDPR</ins>.</p>''
     = ''<p>subject to the UK GDPR.</p>''"
  by code_simp

text \<open>
  C6. A self-closing marker whose attribute value holds the character \<open>>\<close> is left in
  the output of one application: the tag pattern stops at the first \<open>>\<close>.
\<close>

theorem flatten_keeps_marker_with_gt:
  "flattenInlineElements (''<p>a<marker name='' @ [CHR 0x22] @ ''>'' @ [CHR 0x22] @ ''/>b</p>'')
     = ''<p>a<marker name='' @ [CHR 0x22] @ ''>'' @ [CHR 0x22] @ ''/>b</p>''"
  by code_simp


section \<open>The feed-index reader\<close>

text \<open>
  C7. If \<open>parseAtomFeed\<close> returns no entry, it returns \<open>hasNextPage = false\<close>, whatever
  links the page has.
\<close>

theorem feed_no_entries_no_next_page:
  "entries (parseAtomFeed parse xml) = [] \<Longrightarrow> \<not> hasNextPage (parseAtomFeed parse xml)"
  by (simp add: parseAtomFeed_def Let_def)

theorem feed_no_entries_no_next_page_witness:
  "entries (parseAtomFeed (\<lambda>x. feed_with_stale_link) []) = [] \<and>
   \<not> hasNextPage (parseAtomFeed (\<lambda>x. feed_with_stale_link) [])"
proof -
  have e: "entries (parseAtomFeed (\<lambda>x. feed_with_stale_link) []) = []"
    by code_simp
  show ?thesis
    using feed_no_entries_no_next_page [OF e] e by simp
qed


section \<open>The order of the tree walker's output\<close>

lemma foldl_append_acc:
  assumes "\<And>acc x. x \<in> set xs \<Longrightarrow> f acc x = acc @ f [] x"
  shows "foldl f acc xs = acc @ concat (map (f []) xs)"
  using assms
proof (induction xs arbitrary: acc)
  case Nil
  then show ?case by simp
next
  case (Cons x xs)
  have a: "f acc x = acc @ f [] x"
    by (rule Cons.prems) simp
  have b: "foldl f (f acc x) xs = f acc x @ concat (map (f []) xs)"
    by (rule Cons.IH) (rule Cons.prems, simp)
  have "foldl f acc (x # xs) = (acc @ f [] x) @ concat (map (f []) xs)"
    unfolding foldl_Cons b by (subst a) (rule refl)
  then show ?case by simp
qed

lemma section_record_append:
  "section_record el nm acc = acc @ section_record el nm []"
  by (simp add: section_record_def Let_def)

lemma subsection_record_append:
  "subsection_record num heading acc sub = acc @ subsection_record num heading [] sub"
  by (simp add: subsection_record_def Let_def)

lemma processSections_blocks:
  "processSections node acc ctx = acc @ concat (map section_block (items (get node ''section'')))"
proof -
  let ?f = "\<lambda>acc section.
        if \<not> is_object section then acc
        else foldl (subsection_record (text_of (get section ''num'')) (text_of (get section ''heading'')))
               (section_record section ''section'' acc)
               (items (get section ''subsection''))"
  have step: "?f acc x = acc @ section_block x" for acc x
  proof (cases "is_object x")
    case True
    have "foldl (subsection_record (text_of (get x ''num'')) (text_of (get x ''heading'')))
            (section_record x ''section'' acc) (items (get x ''subsection''))
          = section_record x ''section'' acc
            @ concat (map (subsection_record (text_of (get x ''num'')) (text_of (get x ''heading'')) [])
                          (items (get x ''subsection'')))"
      by (rule foldl_append_acc) (rule subsection_record_append)
    then show ?thesis
      using True section_record_append [of x "''section''" acc] by (simp add: section_block_def)
  next
    case False
    then show ?thesis by (simp add: section_block_def)
  qed
  have "foldl ?f acc (items (get node ''section'')) = acc @ concat (map (?f []) (items (get node ''section'')))"
    by (rule foldl_append_acc) (simp only: step append_Nil)
  moreover have "?f [] = section_block"
    using step [where acc = "[]"] by (intro ext) simp
  ultimately show ?thesis
    by (simp add: processSections_def)
qed

lemma walker_append:
  "(\<forall>ps ctx. extractProvisions node ps ctx = ps @ extractProvisions node [] ctx) \<and>
   (\<forall>nm ps ctx. processElements node nm ps ctx
        = ps @ concat (map (element_block nm ctx) (items (get node nm))))"
proof (induction "size node" arbitrary: node rule: less_induct)
  case less
  have pe: "processElements node nm ps ctx = ps @ concat (map (element_block nm ctx) (items (get node nm)))"
    for nm ps ctx
  proof -
    let ?f = "\<lambda>acc element.
        if \<not> is_object element then acc
        else
          let num = text_of (get element ''num'');
              context = (if ctx \<noteq> []
                         then ctx @ '' > '' @ nm @ '' '' @ or_empty num
                         else nm @ '' '' @ or_empty num);
              acc1 = (if nm = ''section'' \<or> nm = ''hcontainer''
                      then section_record element nm acc else acc)
          in extractProvisions element acc1 context"
    have step: "?f acc x = acc @ element_block nm ctx x" if "x \<in> set (items (get node nm))" for acc x
    proof (cases "is_object x")
      case True
      have "size x < size node"
        using that by (rule size_items)
      then have ih: "extractProvisions x qs c = qs @ extractProvisions x [] c" for qs c
        using less by blast
      show ?thesis
        using True ih [of "section_record x nm acc"] ih [of acc] section_record_append [of x nm acc]
        by (simp add: element_block_def element_context_def Let_def)
    next
      case False
      then show ?thesis by (simp add: element_block_def)
    qed
    have "foldl ?f ps (items (get node nm)) = ps @ concat (map (?f []) (items (get node nm)))"
      by (rule foldl_append_acc) (simp only: step append_Nil)
    moreover have "map (?f []) (items (get node nm)) = map (element_block nm ctx) (items (get node nm))"
      using step [where acc = "[]"] by (intro map_cong) simp_all
    ultimately show ?thesis
      by (simp add: processElements.simps)
  qed
  have "extractProvisions node ps ctx = ps @ extractProvisions node [] ctx" for ps ctx
    by (simp add: extractProvisions.simps [of node] Let_def pe processSections_blocks [of node _ ctx])
  with pe show ?case by blast
qed

text \<open>
  C4 as stated fails: in \<open>doc_a\<close> the section \<open>section-1\<close> stands before the part, and
  its record comes after the records of the part.
\<close>

theorem walker_order_counterexample:
  "map fst (entries_of doc_a) = [''section'', ''part''] \<and>
   map provision_ref (extractProvisions doc_a [] []) = [''s2'', ''s2(1)'', ''s1'']"
  by code_simp

text \<open>
  C4, amended. The walker emits the records of a node's children grouped by kind, in the
  fixed order part, chapter, section, hcontainer, and within a kind in array order: a
  pre-order traversal in which an hcontainer's record precedes the records of its
  descendants and a section's record precedes the records of its subsections (the
  definitions of \<open>element_block\<close> and \<open>section_block\<close>).
\<close>

theorem extractProvisions_order:
  "extractProvisions node acc ctx =
     acc @ concat (map (element_block ''part'' ctx) (items (get node ''part'')))
         @ concat (map (element_block ''chapter'' ctx) (items (get node ''chapter'')))
         @ concat (map section_block (items (get node ''section'')))
         @ concat (map (element_block ''hcontainer'' ctx) (items (get node ''hcontainer'')))"
  using walker_append [of node]
  by (simp add: extractProvisions.simps [of node] Let_def processSections_blocks [of node _ ctx])


theorem extractProvisions_order_witness:
  "extractProvisions doc_a [] [] =
     concat (map (element_block ''part'' []) (items (get doc_a ''part'')))
     @ concat (map section_block (items (get doc_a ''section'')))"
proof -
  have "items (get doc_a ''chapter'') = []" "items (get doc_a ''hcontainer'') = []"
    by (simp_all add: doc_a_def items_def)
  then show ?thesis
    using extractProvisions_order [of doc_a "[]" "[]"] by simp
qed


section \<open>Provision references\<close>

lemma not_digit:
  "\<not> digit CHR ''-''" "\<not> digit CHR ''s''" "\<not> digit CHR ''(''" "\<not> digit CHR '')''"
  "\<not> digit CHR '',''" "\<not> digit CHR '' ''"
  by (simp_all add: digit_def)

lemma list_all_not_mem: "list_all P xs \<Longrightarrow> \<not> P c \<Longrightarrow> c \<notin> set xs"
  by (auto simp: list_all_iff)

lemma SECTION_ID_match:
  assumes "ds \<noteq> []" and "list_all digit ds"
  shows "\<exists>y. exec SECTION_ID (''section-'' @ ds) = Some y \<and> group_text y 1 = ds"
proof (rule exec_first)
  define P where "P = rev ''section-''"
  have 1: "(P, ds, []) \<in> set (rm (Lit ''section-'') ([], ''section-'' @ ds, []))"
    using Lit_intro [of "''section-''" "[]" ds "[]"] by (simp add: P_def)
  have 2: "(rev ds @ P, [], [(1, ds)]) \<in> set (rm (Group 1 (Plus True (Atom digit))) (P, ds, []))"
    using Group_intro [OF rm_Plus_Atom_mem [OF assms, where pre = P and r = "[]" and c = "[]" and g = True],
        where n = 1]
    by simp
  have 3: "(rev ds @ P, [], [(1, ds)]) \<in> set (rm (Seqs [Eol]) (rev ds @ P, [], [(1, ds)]))"
    by (intro Seqs_end_intro Eol_intro)
  have "(rev ds @ P, [], [(1, ds)]) \<in> set (rm SECTION_ID ([], ''section-'' @ ds, []))"
    unfolding SECTION_ID_def by (rule Seqs_intro [OF 1], rule Seqs_intro [OF 2], rule 3)
  then show "rm SECTION_ID ([], ''section-'' @ ds, []) \<noteq> []"
    by auto
next
  fix y
  assume y: "y \<in> set (rm SECTION_ID ([], ''section-'' @ ds, []))"
  define P where "P = rev ''section-''"
  from y obtain z1 where z1: "z1 \<in> set (rm (Lit ''section-'') ([], ''section-'' @ ds, []))"
    and y1: "y \<in> set (rm (Seqs [Group 1 (Plus True (Atom digit)), Eol]) z1)"
    unfolding SECTION_ID_def in_rm_Seqs_Cons by blast
  from z1 have z1e: "z1 = (P, ds, [])"
    unfolding in_rm_Lit by (simp add: P_def)
  from y1 obtain z2 where z2: "z2 \<in> set (rm (Group 1 (Plus True (Atom digit))) (P, ds, []))"
    and y2: "y \<in> set (rm (Seqs [Eol]) z2)"
    unfolding z1e in_rm_Seqs_Cons by blast
  from y2 have e: "y = z2" "fst (snd z2) = []"
    unfolding in_rm_Seqs_Cons in_rm_Seqs_Nil by (auto simp: in_rm_Eol)
  from rm_Group_consumes [OF z2] obtain u where
    "ds = u @ fst (snd z2)" "snd (snd z2) = [(1, u)]"
    by (auto simp: Plus_def)
  with e show "group_text y 1 = ds"
    by (simp add: group_text_def cap_def)
qed


lemma SECTION_ID_member:
  assumes "y \<in> set (rm SECTION_ID (pre, t, c))"
  shows "\<exists>u. t = ''section-'' @ u \<and> list_all digit u"
proof -
  from assms obtain z1 where z1: "z1 \<in> set (rm (Lit ''section-'') (pre, t, c))"
    and y1: "y \<in> set (rm (Seqs [Group 1 (Plus True (Atom digit)), Eol]) z1)"
    unfolding SECTION_ID_def in_rm_Seqs_Cons by blast
  from z1 obtain r where r: "t = ''section-'' @ r" "z1 = (rev ''section-'' @ pre, r, c)"
    unfolding in_rm_Lit by blast
  from y1 obtain z2 where z2: "z2 \<in> set (rm (Group 1 (Plus True (Atom digit))) z1)"
    and y2: "y \<in> set (rm (Seqs [Eol]) z2)"
    unfolding in_rm_Seqs_Cons by blast
  from y2 have e: "fst (snd z2) = []"
    unfolding in_rm_Seqs_Cons in_rm_Seqs_Nil by (auto simp: in_rm_Eol)
  from rm_Group_consumes [OF z2] obtain u where "fst (snd z1) = u @ fst (snd z2)" "list_all digit u"
    by (auto simp: Plus_def list_all_iff)
  with e r show ?thesis by simp
qed

lemma SECTION_ID_no_match:
  assumes "list_all digit ds" and "list_all digit es"
  shows "exec SECTION_ID (''section-'' @ ds @ ''-'' @ es) = None"
proof -
  have 0: "rm SECTION_ID ([], ''section-'' @ ds @ ''-'' @ es, []) = []"
  proof (rule ccontr)
    assume "rm SECTION_ID ([], ''section-'' @ ds @ ''-'' @ es, []) \<noteq> []"
    then obtain y where "y \<in> set (rm SECTION_ID ([], ''section-'' @ ds @ ''-'' @ es, []))"
      by (cases "rm SECTION_ID ([], ''section-'' @ ds @ ''-'' @ es, [])") auto
    from SECTION_ID_member [OF this] have "list_all digit (ds @ ''-'' @ es)"
      by auto
    then show False by (simp add: digit_def)
  qed
  have first: "rm SECTION_ID (pre', t, c) = []" if "t = [] \<or> hd t \<noteq> CHR ''s''" for pre' t c
  proof (rule ccontr)
    assume "rm SECTION_ID (pre', t, c) \<noteq> []"
    then obtain y where "y \<in> set (rm SECTION_ID (pre', t, c))"
      by (cases "rm SECTION_ID (pre', t, c)") auto
    from SECTION_ID_member [OF this] that show False by auto
  qed
  have "CHR ''s'' \<notin> set (''ection-'' @ ds @ ''-'' @ es)"
    using list_all_not_mem [OF assms(1) not_digit(2)] list_all_not_mem [OF assms(2) not_digit(2)]
    by simp
  with first have "exec_from SECTION_ID ''s'' (''ection-'' @ ds @ ''-'' @ es) = None"
    by (rule no_match_first_char)
  with 0 show ?thesis
    by (simp add: exec_def)
qed

lemma SUBSECTION_ID_match:
  assumes "ds \<noteq> []" and "list_all digit ds" and "es \<noteq> []" and "list_all digit es"
  shows "\<exists>y. exec SUBSECTION_ID (''section-'' @ ds @ ''-'' @ es) = Some y
             \<and> group_text y 1 = ds \<and> group_text y 2 = es"
proof (rule exec_first)
  define P where "P = rev ''section-''"
  have 1: "(P, ds @ ''-'' @ es, []) \<in> set (rm (Lit ''section-'') ([], ''section-'' @ ds @ ''-'' @ es, []))"
    using Lit_intro [of "''section-''" "[]" "ds @ ''-'' @ es" "[]"] by (simp add: P_def)
  have 2: "(rev ds @ P, ''-'' @ es, [(1, ds)])
            \<in> set (rm (Group 1 (Plus True (Atom digit))) (P, ds @ ''-'' @ es, []))"
    by (rule Group_intro, rule rm_Plus_Atom_mem) (rule assms)+
  have 3: "(CHR ''-'' # rev ds @ P, es, [(1, ds)])
            \<in> set (rm (Chr CHR ''-'') (rev ds @ P, ''-'' @ es, [(1, ds)]))"
    using Chr_intro [of "CHR ''-''" "rev ds @ P" es] by simp
  have 4: "(rev es @ CHR ''-'' # rev ds @ P, [], [(2, es), (1, ds)])
            \<in> set (rm (Group 2 (Plus True (Atom digit))) (CHR ''-'' # rev ds @ P, es, [(1, ds)]))"
    using Group_intro [OF rm_Plus_Atom_mem [OF assms(3,4), where pre = "CHR ''-'' # rev ds @ P"
          and r = "[]" and c = "[(1, ds)]" and g = True], where n = 2]
    by simp
  have 5: "(rev es @ CHR ''-'' # rev ds @ P, [], [(2, es), (1, ds)])
            \<in> set (rm (Seqs [Eol]) (rev es @ CHR ''-'' # rev ds @ P, [], [(2, es), (1, ds)]))"
    by (intro Seqs_end_intro Eol_intro)
  have "(rev es @ CHR ''-'' # rev ds @ P, [], [(2, es), (1, ds)])
          \<in> set (rm SUBSECTION_ID ([], ''section-'' @ ds @ ''-'' @ es, []))"
    unfolding SUBSECTION_ID_def
    by (rule Seqs_intro [OF 1], rule Seqs_intro [OF 2], rule Seqs_intro [OF 3], rule Seqs_intro [OF 4], rule 5)
  then show "rm SUBSECTION_ID ([], ''section-'' @ ds @ ''-'' @ es, []) \<noteq> []"
    by auto
next
  fix y
  assume y: "y \<in> set (rm SUBSECTION_ID ([], ''section-'' @ ds @ ''-'' @ es, []))"
  define P where "P = rev ''section-''"
  from y obtain z1 where z1: "z1 \<in> set (rm (Lit ''section-'') ([], ''section-'' @ ds @ ''-'' @ es, []))"
    and y1: "y \<in> set (rm (Seqs [Group 1 (Plus True (Atom digit)), Chr CHR ''-'',
                                  Group 2 (Plus True (Atom digit)), Eol]) z1)"
    unfolding SUBSECTION_ID_def in_rm_Seqs_Cons by blast
  from z1 have z1e: "z1 = (P, ds @ ''-'' @ es, [])"
    unfolding in_rm_Lit by (simp add: P_def)
  from y1 obtain z2 where z2: "z2 \<in> set (rm (Group 1 (Plus True (Atom digit))) (P, ds @ ''-'' @ es, []))"
    and y2: "y \<in> set (rm (Seqs [Chr CHR ''-'', Group 2 (Plus True (Atom digit)), Eol]) z2)"
    unfolding z1e in_rm_Seqs_Cons by blast
  from rm_Group_consumes [OF z2] obtain u1 where
    u1: "ds @ ''-'' @ es = u1 @ fst (snd z2)" "list_all digit u1" "snd (snd z2) = [(1, u1)]"
    by (auto simp: Plus_def list_all_iff)
  from y2 obtain z3 where z3: "z3 \<in> set (rm (Chr CHR ''-'') z2)"
    and y3: "y \<in> set (rm (Seqs [Group 2 (Plus True (Atom digit)), Eol]) z3)"
    unfolding in_rm_Seqs_Cons by blast
  from z3 obtain r3 where r3: "fst (snd z2) = CHR ''-'' # r3" "fst (snd z3) = r3" "snd (snd z3) = snd (snd z2)"
    by (cases z2) (auto simp: in_rm_Chr)
  from y3 obtain z4 where z4: "z4 \<in> set (rm (Group 2 (Plus True (Atom digit))) z3)"
    and y4: "y \<in> set (rm (Seqs [Eol]) z4)"
    unfolding in_rm_Seqs_Cons by blast
  from y4 have e: "y = z4" "fst (snd z4) = []"
    unfolding in_rm_Seqs_Cons in_rm_Seqs_Nil by (auto simp: in_rm_Eol)
  from rm_Group_consumes [OF z4] obtain u2 where
    u2: "fst (snd z3) = u2 @ fst (snd z4)" "list_all digit u2" "snd (snd z4) = (2, u2) # snd (snd z3)"
    by (auto simp: Plus_def list_all_iff)
  have eq: "ds @ CHR ''-'' # es = u1 @ CHR ''-'' # u2"
    using u1(1) r3 u2(1) e(2) by simp
  have "CHR ''-'' \<notin> set ds" "CHR ''-'' \<notin> set es"
    by (rule list_all_not_mem [OF assms(2) not_digit(1)], rule list_all_not_mem [OF assms(4) not_digit(1)])
  then have "ds = u1 \<and> es = u2"
    using eq append_Cons_eq_iff [of "CHR ''-''" ds es u1 u2] by blast
  then show "group_text y 1 = ds \<and> group_text y 2 = es"
    using e u2(3) r3(3) u1(3) by (simp add: group_text_def cap_def)
qed

lemma buildProvisionRef_canonical:
  assumes "ds \<noteq> []" and "list_all digit ds" and "es \<noteq> []" and "list_all digit es"
  shows "buildProvisionRef (''section-'' @ ds) elementType num = ''s'' @ ds"
    and "buildProvisionRef (''section-'' @ ds @ ''-'' @ es) elementType num
           = ''s'' @ ds @ ''('' @ es @ '')''"
proof -
  from SECTION_ID_match [OF assms(1,2)] show
    "buildProvisionRef (''section-'' @ ds) elementType num = ''s'' @ ds"
    by (auto simp: buildProvisionRef_def)
  from SECTION_ID_no_match [OF assms(2,4)] SUBSECTION_ID_match [OF assms] show
    "buildProvisionRef (''section-'' @ ds @ ''-'' @ es) elementType num = ''s'' @ ds @ ''('' @ es @ '')''"
    by (auto simp: buildProvisionRef_def)
qed

text \<open>
  C1 as stated fails: two sections that carry neither an identifier nor a number both get
  the reference \<open>section-unknown\<close>, and both records are in the output.
\<close>

theorem provision_ref_collision_counterexample:
  "map provision_ref (extractProvisions doc_b [] []) = [''section-unknown'', ''section-unknown''] \<and>
   \<not> distinct (map provision_ref (extractProvisions doc_b [] []))"
  by code_simp

lemma section_record_ref:
  "map provision_ref (section_record el nm []) = (if emits el then [node_ref (el, nm)] else [])"
  by (simp add: section_record_def Let_def emits_def node_ref_def node_eId_def)

lemma subsection_record_ref:
  "map provision_ref (subsection_record num heading [] sub)
     = (if is_object sub \<and> emits sub then [node_ref (sub, ''subsection'')] else [])"
  by (simp add: subsection_record_def Let_def emits_def node_ref_def node_eId_def)

lemma section_block_ref:
  "map provision_ref (section_block s) = map node_ref (section_nodes s)"
  by (simp add: section_block_def section_nodes_def section_record_ref subsection_record_ref
        map_concat comp_def if_distrib [of "map node_ref"] cong: if_cong)

lemma extractProvisions_blocks:
  "extractProvisions node acc ctx =
     acc @ concat (map (element_block ''part'' ctx) (items (get node ''part'')))
         @ concat (map (element_block ''chapter'' ctx) (items (get node ''chapter'')))
         @ concat (map section_block (items (get node ''section'')))
         @ concat (map (element_block ''hcontainer'' ctx) (items (get node ''hcontainer'')))"
  using walker_append [of node]
  by (simp add: extractProvisions.simps [of node] Let_def processSections_blocks [of node _ ctx])

lemma map_concat_cong:
  assumes "\<And>x. x \<in> set xs \<Longrightarrow> map f (g x) = map h (k x)"
  shows "map f (concat (map g xs)) = map h (concat (map k xs))"
  using assms by (induction xs) simp_all

lemma walker_refs:
  "map provision_ref (extractProvisions node [] ctx) = map node_ref (emitting_nodes node)"
proof (induction "size node" arbitrary: node ctx rule: less_induct)
  case less
  have ih: "map provision_ref (extractProvisions x [] c) = map node_ref (emitting_nodes x)"
    if "x \<in> set (items (get node nm))" for x nm c
    using less size_items [OF that] by blast
  have pt: "map provision_ref (concat (map (element_block ''part'' ctx) (items (get node ''part''))))
      = map node_ref (concat (map (\<lambda>el. if is_object el then emitting_nodes el else [])
                                  (items (get node ''part''))))"
    by (rule map_concat_cong) (simp add: element_block_def ih)
  have ch: "map provision_ref (concat (map (element_block ''chapter'' ctx) (items (get node ''chapter''))))
      = map node_ref (concat (map (\<lambda>el. if is_object el then emitting_nodes el else [])
                                  (items (get node ''chapter''))))"
    by (rule map_concat_cong) (simp add: element_block_def ih)
  have sc: "map provision_ref (concat (map section_block (items (get node ''section''))))
      = map node_ref (concat (map section_nodes (items (get node ''section''))))"
    by (rule map_concat_cong) (rule section_block_ref)
  have hc: "map provision_ref (concat (map (element_block ''hcontainer'' ctx) (items (get node ''hcontainer''))))
      = map node_ref (concat (map (\<lambda>el. if is_object el
                           then (if emits el then [(el, ''hcontainer'')] else []) @ emitting_nodes el
                           else []) (items (get node ''hcontainer''))))"
    by (rule map_concat_cong) (simp add: element_block_def ih section_record_ref)
  show ?case
    unfolding extractProvisions_blocks [of node "[]" ctx] emitting_nodes.simps [of node]
    by (simp only: map_append append_Nil pt ch sc hc)
qed

lemma canonical_id_cases:
  assumes "canonical_id e"
  shows "(\<exists>ds. ds \<noteq> [] \<and> list_all digit ds \<and> e = ''section-'' @ ds)
       \<or> (\<exists>ds es. ds \<noteq> [] \<and> list_all digit ds \<and> es \<noteq> [] \<and> list_all digit es
              \<and> e = ''section-'' @ ds @ ''-'' @ es)"
proof -
  define r where "r = drop 8 e"
  define ds where "ds = takeWhile digit r"
  define rest where "rest = dropWhile digit r"
  have l: "length ''section-'' = 8"
    by simp
  have "take (length ''section-'') e = ''section-''"
    using assms unfolding canonical_id_def starts_with_def by (rule conjunct1)
  then have t: "take 8 e = ''section-''"
    unfolding l .
  have "e = take 8 e @ drop 8 e"
    by (rule append_take_drop_id [symmetric])
  then have e: "e = ''section-'' @ r"
    unfolding t r_def .
  have r: "r = ds @ rest"
    by (simp add: ds_def rest_def)
  have d: "list_all digit ds"
    by (auto simp: ds_def list_all_iff dest: set_takeWhileD)
  have c: "ds \<noteq> []" "rest = [] \<or> (hd rest = CHR ''-'' \<and> tl rest \<noteq> [] \<and> list_all digit (tl rest))"
    using assms by (simp_all add: canonical_id_def Let_def r_def ds_def rest_def)
  show ?thesis
  proof (cases "rest = []")
    case True
    with e r c d show ?thesis by auto
  next
    case False
    with c(2) have "rest = ''-'' @ tl rest" "tl rest \<noteq> []" "list_all digit (tl rest)"
      by (cases rest; simp)+
    with e r c(1) d show ?thesis by metis
  qed
qed

lemma canonical_ref_inj:
  assumes "canonical_id e" and "canonical_id e'"
    and "buildProvisionRef e k n = buildProvisionRef e' k' n'"
  shows "e = e'"
proof -
  have inj: "ds = ds' \<and> es = es'"
    if "ds @ CHR ''('' # es @ '')'' = ds' @ CHR ''('' # es' @ '')''"
      "list_all digit ds" "list_all digit es"
    for ds es ds' es'
  proof -
    have "CHR ''('' \<notin> set ds" "CHR ''('' \<notin> set (es @ '')'')"
      using list_all_not_mem [OF that(2) not_digit(3)] list_all_not_mem [OF that(3) not_digit(3)]
      by simp_all
    then have "ds = ds' \<and> es @ '')'' = es' @ '')''"
      using that(1) append_Cons_eq_iff [of "CHR ''(''" ds "es @ '')''" ds' "es' @ '')''"] by blast
    then show ?thesis by simp
  qed
  have ne: "ds \<noteq> ds' @ CHR ''('' # es' @ '')''" if "list_all digit ds" for ds ds' es'
    using list_all_not_mem [OF that not_digit(3)] by auto
  from canonical_id_cases [OF assms(1)] canonical_id_cases [OF assms(2)] show ?thesis
  proof (elim disjE exE conjE)
    fix ds ds'
    assume a: "ds \<noteq> []" "list_all digit ds" "e = ''section-'' @ ds"
      "ds' \<noteq> []" "list_all digit ds'" "e' = ''section-'' @ ds'"
    from assms(3) show ?thesis
      unfolding a(3,6) buildProvisionRef_canonical(1) [OF a(1,2) a(1,2)]
        buildProvisionRef_canonical(1) [OF a(4,5) a(4,5)]
      by simp
  next
    fix ds ds' es'
    assume a: "ds \<noteq> []" "list_all digit ds" "e = ''section-'' @ ds"
      "ds' \<noteq> []" "list_all digit ds'" "es' \<noteq> []" "list_all digit es'"
      "e' = ''section-'' @ ds' @ ''-'' @ es'"
    from assms(3) show ?thesis
      unfolding a(3,8) buildProvisionRef_canonical(1) [OF a(1,2) a(1,2)]
        buildProvisionRef_canonical(2) [OF a(4,5,6,7)]
      using ne [OF a(2)] by simp
  next
    fix ds es ds'
    assume a: "ds \<noteq> []" "list_all digit ds" "es \<noteq> []" "list_all digit es"
      "e = ''section-'' @ ds @ ''-'' @ es"
      "ds' \<noteq> []" "list_all digit ds'" "e' = ''section-'' @ ds'"
    from assms(3) show ?thesis
      unfolding a(5,8) buildProvisionRef_canonical(2) [OF a(1,2,3,4)]
        buildProvisionRef_canonical(1) [OF a(6,7) a(6,7)]
      using ne [OF a(7), of ds es] by simp
  next
    fix ds es ds' es'
    assume a: "ds \<noteq> []" "list_all digit ds" "es \<noteq> []" "list_all digit es"
      "e = ''section-'' @ ds @ ''-'' @ es"
      "ds' \<noteq> []" "list_all digit ds'" "es' \<noteq> []" "list_all digit es'"
      "e' = ''section-'' @ ds' @ ''-'' @ es'"
    from assms(3) show ?thesis
      unfolding a(5,10) buildProvisionRef_canonical(2) [OF a(1,2,3,4)]
        buildProvisionRef_canonical(2) [OF a(6,7,8,9)]
      using inj [OF _ a(2,4), of ds' es'] by simp
  qed
qed

lemma distinct_map_transfer:
  assumes "distinct (map f xs)"
    and "\<And>x y. x \<in> set xs \<Longrightarrow> y \<in> set xs \<Longrightarrow> g x = g y \<Longrightarrow> f x = f y"
  shows "distinct (map g xs)"
proof -
  have "distinct xs" "inj_on f (set xs)"
    using assms(1) by (simp_all add: distinct_map)
  moreover have "inj_on g (set xs)"
  proof (rule inj_onI)
    fix x y
    assume xy: "x \<in> set xs" "y \<in> set xs" "g x = g y"
    then have "f x = f y" by (rule assms(2))
    with \<open>inj_on f (set xs)\<close> xy(1,2) show "x = y" by (blast dest: inj_onD)
  qed
  ultimately show ?thesis by (simp only: distinct_map)
qed

text \<open>
  C1, amended. The walker only appends to the list of provisions, and the references of
  its records are, in order, the references of the emitting nodes: each record's
  \<open>provision_ref\<close> is \<open>buildProvisionRef\<close> of its own node's identifier, kind and number.
  When the emitting nodes carry pairwise distinct identifiers of the forms \<open>section-n\<close>
  and \<open>section-n-m\<close>, the references are pairwise distinct; these identifiers give the
  references \<open>sn\<close> and \<open>sn(m)\<close>. A node with neither identifier nor number gets its kind
  followed by \<open>-unknown\<close>.
\<close>

theorem provision_ref_of_node:
  "extractProvisions node acc ctx = acc @ extractProvisions node [] ctx
   \<and> map provision_ref (extractProvisions node [] ctx) = map node_ref (emitting_nodes node)
   \<and> (list_all (\<lambda>p. canonical_id (node_eId p)) (emitting_nodes node)
        \<and> distinct (map node_eId (emitting_nodes node))
      \<longrightarrow> distinct (map provision_ref (extractProvisions node [] ctx)))
   \<and> (ds \<noteq> [] \<and> list_all digit ds \<longrightarrow> buildProvisionRef (''section-'' @ ds) k n = ''s'' @ ds)
   \<and> (ds \<noteq> [] \<and> list_all digit ds \<and> es \<noteq> [] \<and> list_all digit es
      \<longrightarrow> buildProvisionRef (''section-'' @ ds @ ''-'' @ es) k n = ''s'' @ ds @ ''('' @ es @ '')'')
   \<and> buildProvisionRef [] k None = k @ ''-unknown''"
proof -
  have w: "extractProvisions node acc ctx = acc @ extractProvisions node [] ctx"
    using walker_append [of node] by blast
  have r: "map provision_ref (extractProvisions node [] ctx) = map node_ref (emitting_nodes node)"
    by (rule walker_refs)
  have d: "distinct (map provision_ref (extractProvisions node [] ctx))"
    if "list_all (\<lambda>p. canonical_id (node_eId p)) (emitting_nodes node)"
      "distinct (map node_eId (emitting_nodes node))"
    unfolding r
  proof (rule distinct_map_transfer [OF that(2)])
    fix x y
    assume "x \<in> set (emitting_nodes node)" "y \<in> set (emitting_nodes node)" "node_ref x = node_ref y"
    with that(1) show "node_eId x = node_eId y"
      unfolding node_ref_def list_all_iff by (blast intro: canonical_ref_inj)
  qed
  have u: "buildProvisionRef [] k None = k @ ''-unknown''"
    by (simp add: buildProvisionRef_def present_def)
  from w r d u buildProvisionRef_canonical [of ds es k n] buildProvisionRef_canonical(1) [of ds ds k n]
  show ?thesis by blast
qed

theorem provision_ref_of_node_witness:
  "list_all (\<lambda>p. canonical_id (node_eId p)) (emitting_nodes doc_a) \<and>
   distinct (map node_eId (emitting_nodes doc_a)) \<and>
   map node_eId (emitting_nodes doc_a) = [''section-2'', ''section-2-1'', ''section-1''] \<and>
   map provision_ref (extractProvisions doc_a [] []) = map node_ref (emitting_nodes doc_a) \<and>
   distinct (map provision_ref (extractProvisions doc_a [] [])) \<and>
   extractProvisions doc_a (extractProvisions doc_b [] []) [] =
     extractProvisions doc_b [] [] @ extractProvisions doc_a [] [] \<and>
   list_all digit ''12'' \<and> list_all digit ''3'' \<and>
   buildProvisionRef ''section-12'' ''section'' None = ''s12'' \<and>
   buildProvisionRef ''section-12-3'' ''subsection'' None = ''s12(3)''"
proof -
  have a: "list_all (\<lambda>p. canonical_id (node_eId p)) (emitting_nodes doc_a)"
    by code_simp
  have b: "distinct (map node_eId (emitting_nodes doc_a))"
    by code_simp
  have c: "map node_eId (emitting_nodes doc_a) = [''section-2'', ''section-2-1'', ''section-1'']"
    by code_simp
  have d: "''12'' \<noteq> []" "list_all digit ''12''" "''3'' \<noteq> []" "list_all digit ''3''"
    by (simp_all add: digit_def)
  note th = provision_ref_of_node [of doc_a "extractProvisions doc_b [] []" "[]" "''12''" _ _ "''3''"]
  have 1: "map provision_ref (extractProvisions doc_a [] []) = map node_ref (emitting_nodes doc_a)"
    using th by blast
  have 2: "distinct (map provision_ref (extractProvisions doc_a [] []))"
    using th a b by blast
  have 3: "extractProvisions doc_a (extractProvisions doc_b [] []) [] =
     extractProvisions doc_b [] [] @ extractProvisions doc_a [] []"
    using th by blast
  have 4: "buildProvisionRef (''section-'' @ ''12'') ''section'' None = ''s'' @ ''12''"
    using th [of "''section''" None] d by blast
  have 5: "buildProvisionRef (''section-'' @ ''12'' @ ''-'' @ ''3'') ''subsection'' None
             = ''s'' @ ''12'' @ ''('' @ ''3'' @ '')''"
    using th [of "''subsection''" None] d by blast
  from 4 have 6: "buildProvisionRef ''section-12'' ''section'' None = ''s12''" by simp
  from 5 have 7: "buildProvisionRef ''section-12-3'' ''subsection'' None = ''s12(3)''" by simp
  from a b c 1 2 3 d(2,4) 6 7 show ?thesis by blast
qed

section \<open>Formatting and parsing a citation\<close>

subsection \<open>Digits, trimming and splitting\<close>

lemma digit_table:
  "list_all (\<lambda>d::nat. digit (char_of (48 + d)) \<and> digit_val (char_of (48 + d)) = d) [0..<10]"
  by code_simp

lemma digit_char_of: "(d::nat) < 10 \<Longrightarrow> digit (char_of (48 + d))"
  using digit_table unfolding list_all_iff by simp

lemma digit_val_char_of: "(d::nat) < 10 \<Longrightarrow> digit_val (char_of (48 + d)) = d"
  using digit_table unfolding list_all_iff by simp

lemma show_nat_digits: "list_all digit (show_nat n)"
proof (induction n rule: show_nat.induct)
  case (1 n)
  show ?case
  proof (cases "n < 10")
    case True
    then show ?thesis by (simp add: digit_char_of)
  next
    case False
    then have "list_all digit (show_nat (n div 10))" by (rule "1.IH")
    moreover have "digit (char_of (48 + n mod 10))" by (rule digit_char_of) simp
    ultimately show ?thesis using False by (subst show_nat.simps) simp
  qed
qed

lemma nat_of_digits_snoc: "nat_of_digits (ds @ [c]) = 10 * nat_of_digits ds + digit_val c"
  by (simp add: nat_of_digits_def)

lemma nat_of_digits_show_nat: "nat_of_digits (show_nat n) = n"
proof (induction n rule: show_nat.induct)
  case (1 n)
  show ?case
  proof (cases "n < 10")
    case True
    then show ?thesis by (simp add: nat_of_digits_def digit_val_char_of)
  next
    case False
    then have "nat_of_digits (show_nat (n div 10)) = n div 10" by (rule "1.IH")
    moreover have "digit_val (char_of (48 + n mod 10)) = n mod 10"
      by (rule digit_val_char_of) simp
    ultimately show ?thesis
      using False by (subst show_nat.simps) (simp add: nat_of_digits_snoc)
  qed
qed

lemma show_nat_length4: "1000 \<le> n \<Longrightarrow> n \<le> 9999 \<Longrightarrow> length (show_nat n) = 4"
proof -
  assume n: "1000 \<le> n" "n \<le> 9999"
  have a: "show_nat n = show_nat (n div 10) @ [char_of (48 + n mod 10)]"
    using n by (subst show_nat.simps) simp
  have b: "show_nat (n div 10) = show_nat (n div 10 div 10) @ [char_of (48 + n div 10 mod 10)]"
    using n by (subst show_nat.simps) simp
  have c: "show_nat (n div 10 div 10) = show_nat (n div 10 div 10 div 10) @ [char_of (48 + n div 10 div 10 mod 10)]"
    using n by (subst show_nat.simps) simp
  have d: "show_nat (n div 10 div 10 div 10) = [char_of (48 + n div 10 div 10 div 10)]"
    using n by (subst show_nat.simps) simp
  show ?thesis
    unfolding a b c d by simp
qed

lemma show_nat_nonempty: "show_nat n \<noteq> []"
  by (subst show_nat.simps) simp

lemma digit_not_space: "digit c \<Longrightarrow> \<not> space c"
  by (auto simp: digit_def space_def)

lemma digit_not_sign: "digit c \<Longrightarrow> c \<noteq> CHR ''-'' \<and> c \<noteq> CHR ''+''"
  by (auto simp: digit_def)

lemma takeWhile_id: "list_all P xs \<Longrightarrow> takeWhile P xs = xs"
  by (induction xs) auto

declare show_nat.simps [simp del]

lemma parseInt_digits:
  assumes "ds \<noteq> []" and "list_all digit ds"
  shows "parseInt ds = Num (int (nat_of_digits ds))"
proof -
  obtain a as where ds: "ds = a # as" using assms(1) by (cases ds) auto
  have a: "digit a" using assms(2) by (simp add: ds)
  have 1: "dropWhile space (a # as) = a # as"
    using digit_not_space [OF a] by simp
  have 2: "takeWhile digit as = as"
    using assms(2) unfolding ds by (simp add: takeWhile_id)
  have 3: "a \<noteq> CHR ''-''" "a \<noteq> CHR ''+''"
    using digit_not_sign [OF a] by simp_all
  show ?thesis
    unfolding ds parseInt_def 1 Let_def list.case using 3 a by (simp add: 2)
qed

lemma parseInt_show_nat: "parseInt (show_nat n) = Num (int n)"
proof -
  have "parseInt (show_nat n) = Num (int (nat_of_digits (show_nat n)))"
    by (rule parseInt_digits [OF show_nat_nonempty show_nat_digits])
  then show ?thesis
    unfolding nat_of_digits_show_nat .
qed

text \<open>Trimming.\<close>

lemma trim_id:
  assumes "s \<noteq> []" and "\<not> space (hd s)" and "\<not> space (last s)"
  shows "trim s = s"
proof -
  have 1: "dropWhile space s = s"
    using assms(1,2) by (cases s) auto
  have "rev s \<noteq> []" "\<not> space (hd (rev s))"
    using assms(1,3) by (simp_all add: hd_rev)
  then have 2: "dropWhile space (rev s) = rev s"
    by (cases "rev s") auto
  show ?thesis
    by (simp add: trim_def 1 2)
qed

text \<open>Splitting a text.\<close>

lemma first_split_unique:
  "a @ c # b = a' @ c # b' \<Longrightarrow> c \<notin> set a \<Longrightarrow> c \<notin> set a' \<Longrightarrow> a = a' \<and> b = b'"
proof (induction a arbitrary: a')
  case Nil
  then show ?case by (cases a') auto
next
  case (Cons x a)
  then show ?case by (cases a') auto
qed

lemma prefix_until_stop:
  assumes eq: "p @ s = u @ v"
    and p: "list_all good p" and u: "list_all good u"
    and s: "s = [] \<or> \<not> good (hd s)"
    and v: "v = [] \<or> \<not> good (hd v)"
  shows "u = p \<and> v = s"
proof -
  from eq obtain w where "(p = u @ w \<and> w @ s = v) \<or> (p @ w = u \<and> s = w @ v)"
    unfolding append_eq_append_conv2 by blast
  then show ?thesis
  proof
    assume a: "p = u @ w \<and> w @ s = v"
    have "w = []"
    proof (rule ccontr)
      assume "w \<noteq> []"
      then have "v \<noteq> []" "hd v = hd w" "hd w \<in> set p"
        using a by auto
      with p v show False by (simp add: list_all_iff)
    qed
    with a show ?thesis by simp
  next
    assume a: "p @ w = u \<and> s = w @ v"
    have "w = []"
    proof (rule ccontr)
      assume "w \<noteq> []"
      then have "s \<noteq> []" "hd s = hd w" "hd w \<in> set u"
        using a by auto
      with u s show False by (simp add: list_all_iff)
    qed
    with a show ?thesis by simp
  qed
qed

lemma one_space_before:
  assumes "CHR '' '' # t = u @ v" and "u \<noteq> []" and "list_all space u" and "t \<noteq> []" and "\<not> space (hd t)"
  shows "u = '' '' \<and> v = t"
proof -
  obtain u' where u': "u = CHR '' '' # u'" "t = u' @ v"
    using assms(1,2) by (cases u) auto
  have "u' = []"
  proof (rule ccontr)
    assume "u' \<noteq> []"
    then have "hd t = hd u'" "hd u' \<in> set u"
      using u' by auto
    with assms(3,5) show False by (simp add: list_all_iff)
  qed
  with u' show ?thesis by simp
qed

lemma one_space_after:
  assumes "t @ '' '' = m @ u" and "u \<noteq> []" and "list_all space u" and "t \<noteq> []" and "\<not> space (last t)"
  shows "u = '' '' \<and> m = t"
proof -
  have "rev u @ rev m = CHR '' '' # rev t"
    using arg_cong [OF assms(1), of rev] by simp
  then have "CHR '' '' # rev t = rev u @ rev m" by simp
  moreover have "rev u \<noteq> []" "list_all space (rev u)" "rev t \<noteq> []" "\<not> space (hd (rev t))"
    using assms(2-5) by (simp_all add: hd_rev list_all_iff)
  ultimately have "rev u = '' '' \<and> rev m = rev t"
    by (rule one_space_before)
  then show ?thesis
    by (metis rev_rev_ident rev_singleton_conv rev_is_rev_conv)
qed

lemma no_space_prefix:
  assumes "c # r = u @ v" and "list_all space u" and "\<not> space c"
  shows "u = []"
  using assms by (cases u) auto

subsection \<open>Building blocks of the citation patterns\<close>

text \<open>Character classes that exclude one another.\<close>

lemma space_table:
  "list_all (\<lambda>c. canon c = c) [CHR 0x09, CHR 0x0A, CHR 0x0B, CHR 0x0C, CHR 0x0D, CHR 0x20, CHR 0xA0]"
  by code_simp

lemma space_canon: "space c \<Longrightarrow> canon c = c"
  using space_table unfolding list_all_iff space_def by blast

lemma pin_char_table:
  "list_all (\<lambda>c. \<not> space c \<and> c \<noteq> CHR '','')
     (''0123456789'' @ ''()'' @ ''abcdefghijklmnopqrstuvwxyz'' @ ''ABCDEFGHIJKLMNOPQRSTUVWXYZ'')"
  by code_simp

lemma pin_char_not_space:
  assumes "digit c \<or> c = CHR ''('' \<or> c = CHR '')'' \<or> letter c"
  shows "\<not> space c \<and> c \<noteq> CHR '',''"
proof -
  have "c \<in> set ''()''" if "c = CHR ''('' \<or> c = CHR '')''"
    using that by auto
  with assms have "c \<in> set (''0123456789'' @ ''()'' @ ''abcdefghijklmnopqrstuvwxyz''
                          @ ''ABCDEFGHIJKLMNOPQRSTUVWXYZ'')"
    unfolding digit_def letter_def lower_def upper_def set_append Un_iff by blast
  with pin_char_table show ?thesis
    unfolding list_all_iff by blast
qed

lemma digit_not_lower: "digit c \<Longrightarrow> \<not> lower c"
  by (auto simp: digit_def lower_def)

lemma digit_not_paren: "digit c \<Longrightarrow> c \<noteq> CHR ''('' \<and> c \<noteq> CHR '')''"
  by (auto simp: digit_def)

lemma list_all_hd: "list_all P xs \<Longrightarrow> xs \<noteq> [] \<Longrightarrow> P (hd xs)"
  by (cases xs) auto

lemma list_all_last: "list_all P xs \<Longrightarrow> xs \<noteq> [] \<Longrightarrow> P (last xs)"
  by (auto simp: list_all_iff)

lemma list_all_weaken: "list_all P xs \<Longrightarrow> (\<And>x. P x \<Longrightarrow> Q x) \<Longrightarrow> list_all Q xs"
  by (auto simp: list_all_iff)

text \<open>Matches of some building blocks.\<close>

lemma rm_Group_Plus_Atom_elim:
  assumes "y \<in> set (rm (Group n (Plus g (Atom p))) x)"
  shows "\<exists>u. u \<noteq> [] \<and> list_all p u \<and> fst (snd x) = u @ fst (snd y)
             \<and> snd (snd y) = (n, u) # snd (snd x)"
proof -
  from assms obtain z where z: "z \<in> set (rm (Plus g (Atom p)) x)"
    and y: "y = (fst z, fst (snd z),
                 (n, take (length (fst (snd x)) - length (fst (snd z))) (fst (snd x))) # snd (snd z))"
    unfolding in_rm_Group by blast
  from rm_Plus_Atom_elim [OF z] obtain u where
    u: "u \<noteq> []" "list_all p u" "fst (snd x) = u @ fst (snd z)" "snd (snd z) = snd (snd x)"
    by blast
  have "take (length (fst (snd x)) - length (fst (snd z))) (fst (snd x)) = u"
    unfolding u(3) by simp
  with y u show ?thesis by simp
qed

lemma rm_four_atoms:
  assumes "y \<in> set (rm (Seqs [Atom p, Atom p, Atom p, Atom p]) x)"
  shows "\<exists>u. length u = 4 \<and> list_all p u \<and> fst (snd x) = u @ fst (snd y)
             \<and> snd (snd y) = snd (snd x)"
proof -
  from assms obtain z1 z2 z3 where
    1: "z1 \<in> set (rm (Atom p) x)" and 2: "z2 \<in> set (rm (Atom p) z1)"
    and 3: "z3 \<in> set (rm (Atom p) z2)" and 4: "y \<in> set (rm (Atom p) z3)"
    unfolding in_rm_Seqs_Cons in_rm_Seqs_Nil by blast
  have step: "\<exists>a. p a \<and> fst (snd v) = a # fst (snd w) \<and> snd (snd w) = snd (snd v)"
    if "w \<in> set (rm (Atom p) v)" for v w
    using that by (cases v) (auto simp: in_rm_Atom)
  from step [OF 1] step [OF 2] step [OF 3] step [OF 4] obtain a b c d where
    "p a" "p b" "p c" "p d" "fst (snd x) = [a, b, c, d] @ fst (snd y)" "snd (snd y) = snd (snd x)"
    by auto
  then have "length [a, b, c, d] = 4 \<and> list_all p [a, b, c, d]
      \<and> fst (snd x) = [a, b, c, d] @ fst (snd y) \<and> snd (snd y) = snd (snd x)"
    by simp
  then show ?thesis by blast
qed

lemma rm_Group_four_atoms:
  assumes "y \<in> set (rm (Group n (Seqs [Atom p, Atom p, Atom p, Atom p])) x)"
  shows "\<exists>u. length u = 4 \<and> list_all p u \<and> fst (snd x) = u @ fst (snd y)
             \<and> snd (snd y) = (n, u) # snd (snd x)"
proof -
  from assms obtain z where z: "z \<in> set (rm (Seqs [Atom p, Atom p, Atom p, Atom p]) x)"
    and y: "y = (fst z, fst (snd z),
                 (n, take (length (fst (snd x)) - length (fst (snd z))) (fst (snd x))) # snd (snd z))"
    unfolding in_rm_Group by blast
  from rm_four_atoms [OF z] obtain u where
    u: "length u = 4" "list_all p u" "fst (snd x) = u @ fst (snd z)" "snd (snd z) = snd (snd x)"
    by blast
  have "take (length (fst (snd x)) - length (fst (snd z))) (fst (snd x)) = u"
    unfolding u(3) by simp
  with y u show ?thesis by simp
qed

lemma four_atoms_intro:
  assumes "length u = 4" and "list_all p u"
  shows "(rev u @ pre, r, c) \<in> set (rm (Seqs [Atom p, Atom p, Atom p, Atom p]) (pre, u @ r, c))"
proof -
  from assms(1) obtain a b d e where u: "u = [a, b, d, e]"
    by (cases u; simp; cases "tl u"; simp; cases "tl (tl u)"; simp; cases "tl (tl (tl u))"; simp)
  have p: "p a" "p b" "p d" "p e"
    using assms(2) by (simp_all add: u)
  have "(e # d # b # a # pre, r, c) \<in> set (rm (Seqs [Atom p, Atom p, Atom p, Atom p]) (pre, a # b # d # e # r, c))"
    by (rule Seqs_intro [OF Atom_intro [where p = p and d = a, OF p(1)]],
        rule Seqs_intro [OF Atom_intro [where p = p and d = b, OF p(2)]],
        rule Seqs_intro [OF Atom_intro [where p = p and d = d, OF p(3)]],
        rule Seqs_end_intro [OF Atom_intro [where p = p and d = e, OF p(4)]])
  then show ?thesis by (simp add: u)
qed

lemma in_rm_Opt_Chr:
  assumes "y \<in> set (rm (Opt (Chr d)) x)"
  shows "\<exists>k. (k = [] \<or> k = [d]) \<and> fst (snd x) = k @ fst (snd y) \<and> snd (snd y) = snd (snd x)"
proof -
  from assms have "y \<in> set (rm (Chr d) x) \<or> y = x"
    unfolding in_rm_Opt .
  then show ?thesis
  proof
    assume "y \<in> set (rm (Chr d) x)"
    then have "fst (snd x) = [d] @ fst (snd y) \<and> snd (snd y) = snd (snd x)"
      by (cases x) (auto simp: in_rm_Chr)
    then show ?thesis by blast
  next
    assume "y = x"
    then have "fst (snd x) = [] @ fst (snd y) \<and> snd (snd y) = snd (snd x)" by simp
    then show ?thesis by blast
  qed
qed

lemma LitI_intro: "(rev l @ pre, r, c) \<in> set (rm (LitI l) (pre, l @ r, c))"
proof (induction l arbitrary: pre)
  case Nil
  show ?case by (simp add: LitI_def rm.simps)
next
  case (Cons a l)
  have 1: "(a # pre, l @ r, c) \<in> set (rm (Atom (\<lambda>d. canon d = canon a)) (pre, (a # l) @ r, c))"
    using Atom_intro [of "\<lambda>d. canon d = canon a" a pre "l @ r" c] by simp
  have 2: "(rev l @ a # pre, r, c) \<in> set (rm (LitI l) (a # pre, l @ r, c))"
    by (rule Cons.IH)
  have "(rev l @ a # pre, r, c) \<in> set (rm (Seq (Atom (\<lambda>d. canon d = canon a)) (LitI l)) (pre, (a # l) @ r, c))"
    by (rule Seq_intro [OF 1 2])
  then show ?case by (simp add: LitI_def)
qed

subsection \<open>The full pattern\<close>

text \<open>Every match of \<open>FULL_CITATION\<close> splits the text in nine pieces.\<close>

lemma head_alph_not_space:
  assumes "alph (Alt (LitI ''Section'') (Seq (LitI ''s'') (Opt (Chr CHR ''.'')))) c"
  shows "\<not> space c"
proof
  assume s: "space c"
  have "list_all (\<lambda>c. \<not> space c) ''SECTION.''"
    by code_simp
  moreover have "list_all (\<lambda>d. canon d \<in> set ''SECTION.'') ''Sections.''"
    by code_simp
  moreover from assms have "\<exists>d \<in> set ''Sections.''. canon c = canon d"
    by (auto simp: LitI_def Opt_def Chr_def)
  ultimately have "\<not> space (canon c)"
    unfolding list_all_iff by metis
  with s space_canon [OF s] show False by simp
qed

lemma FULL_CITATION_member:
  assumes "y \<in> set (rm FULL_CITATION ([], s, []))"
  shows "\<exists>a w1 g1 w2 k w3 g2 w4 g3.
      s = a @ w1 @ g1 @ w2 @ k @ w3 @ g2 @ w4 @ g3
    \<and> list_all (\<lambda>c. \<not> space c) a
    \<and> w1 \<noteq> [] \<and> list_all space w1
    \<and> list_all (\<lambda>c. digit c \<or> c = CHR ''('' \<or> c = CHR '')'' \<or> letter c) g1
    \<and> list_all space w2 \<and> (k = [] \<or> k = '','')
    \<and> w3 \<noteq> [] \<and> list_all space w3
    \<and> list_all dot g2
    \<and> w4 \<noteq> [] \<and> list_all space w4
    \<and> length g3 = 4 \<and> list_all digit g3
    \<and> snd (snd y) = [(3, g3), (2, g2), (1, g1)]"
proof -
  let ?A = "Alt (LitI ''Section'') (Seq (LitI ''s'') (Opt (Chr CHR ''.'')))"
  let ?B = "Seqs [Plus True (Atom digit),
                  Star True (Seqs [Chr CHR ''('', Plus True (Atom digit), Chr CHR '')'']),
                  Star True (Seqs [Chr CHR ''('', Atom letter, Chr CHR '')''])]"
  from assms obtain z0 z1 z2 z3 z4 z5 z6 z7 z8 z9 where
    0: "z0 \<in> set (rm Bol ([], s, []))"
    and 1: "z1 \<in> set (rm ?A z0)"
    and 2: "z2 \<in> set (rm (Plus True (Atom space)) z1)"
    and 3: "z3 \<in> set (rm (Group 1 ?B) z2)"
    and 4: "z4 \<in> set (rm (Star True (Atom space)) z3)"
    and 5: "z5 \<in> set (rm (Opt (Chr CHR '','')) z4)"
    and 6: "z6 \<in> set (rm (Plus True (Atom space)) z5)"
    and 7: "z7 \<in> set (rm (Group 2 (Plus False (Atom dot))) z6)"
    and 8: "z8 \<in> set (rm (Plus True (Atom space)) z7)"
    and 9: "z9 \<in> set (rm (Group 3 (Seqs [Atom digit, Atom digit, Atom digit, Atom digit])) z8)"
    and 10: "y \<in> set (rm Eol z9)"
    unfolding FULL_CITATION_def in_rm_Seqs_Cons in_rm_Seqs_Nil by blast
  from 0 have e0: "fst (snd z0) = s" "snd (snd z0) = []"
    unfolding in_rm_Bol by simp_all
  have gfA: "groupfree ?A"
    by (simp add: LitI_def Opt_def Chr_def)
  from rm_consumes [OF 1] gfA obtain a where
    e1: "fst (snd z0) = a @ fst (snd z1)" "list_all (alph ?A) a" "snd (snd z1) = snd (snd z0)"
    unfolding consumes_def by blast
  have a: "list_all (\<lambda>c. \<not> space c) a"
    by (rule list_all_weaken [OF e1(2)]) (rule head_alph_not_space)
  from rm_Plus_Atom_elim [OF 2] obtain w1 where
    e2: "w1 \<noteq> []" "list_all space w1" "fst (snd z1) = w1 @ fst (snd z2)" "snd (snd z2) = snd (snd z1)"
    by blast
  have gfB: "groupfree ?B"
    by (simp add: Seqs_def Plus_def Chr_def)
  from rm_Group_consumes [OF 3 gfB] obtain g1 where
    e3: "fst (snd z2) = g1 @ fst (snd z3)" "list_all (alph ?B) g1" "snd (snd z3) = (1, g1) # snd (snd z2)"
    by blast
  have g1: "list_all (\<lambda>c. digit c \<or> c = CHR ''('' \<or> c = CHR '')'' \<or> letter c) g1"
    by (rule list_all_weaken [OF e3(2)]) (auto simp: Seqs_def Plus_def Chr_def)
  from rm_Star_Atom_elim [OF 4] obtain w2 where
    e4: "list_all space w2" "fst (snd z3) = w2 @ fst (snd z4)" "snd (snd z4) = snd (snd z3)"
    by blast
  from in_rm_Opt_Chr [OF 5] obtain k where
    e5: "k = [] \<or> k = '',''" "fst (snd z4) = k @ fst (snd z5)" "snd (snd z5) = snd (snd z4)"
    by blast
  from rm_Plus_Atom_elim [OF 6] obtain w3 where
    e6: "w3 \<noteq> []" "list_all space w3" "fst (snd z5) = w3 @ fst (snd z6)" "snd (snd z6) = snd (snd z5)"
    by blast
  from rm_Group_Plus_Atom_elim [OF 7] obtain g2 where
    e7: "list_all dot g2" "fst (snd z6) = g2 @ fst (snd z7)" "snd (snd z7) = (2, g2) # snd (snd z6)"
    by blast
  from rm_Plus_Atom_elim [OF 8] obtain w4 where
    e8: "w4 \<noteq> []" "list_all space w4" "fst (snd z7) = w4 @ fst (snd z8)" "snd (snd z8) = snd (snd z7)"
    by blast
  from rm_Group_four_atoms [OF 9] obtain g3 where
    e9: "length g3 = 4" "list_all digit g3" "fst (snd z8) = g3 @ fst (snd z9)"
      "snd (snd z9) = (3, g3) # snd (snd z8)"
    by blast
  from 10 have e10: "y = z9" "fst (snd z9) = []"
    unfolding in_rm_Eol by simp_all
  have s: "s = a @ w1 @ g1 @ w2 @ k @ w3 @ g2 @ w4 @ g3"
    using e0(1) e1(1) e2(3) e3(1) e4(2) e5(2) e6(3) e7(2) e8(3) e9(3) e10(2) by simp
  have c: "snd (snd y) = [(3, g3), (2, g2), (1, g1)]"
    using e0(2) e1(3) e2(4) e3(3) e4(3) e5(3) e6(4) e7(3) e8(4) e9(4) e10(1) by simp
  from s a e2(1,2) g1 e4(1) e5(1) e6(1,2) e7(1) e8(1,2) e9(1,2) c show ?thesis
    by blast
qed

text \<open>The match of a formatted citation.\<close>

lemma FULL_CITATION_match:
  assumes H: "(H = ''Section'' \<and> K = '','') \<or> (H = ''s.'' \<and> K = [])"
    and pin: "\<And>pre r c. (rev pin @ pre, r, c) \<in> set (rm
        (Seqs [Plus True (Atom digit),
               Star True (Seqs [Chr CHR ''('', Plus True (Atom digit), Chr CHR '')'']),
               Star True (Seqs [Chr CHR ''('', Atom letter, Chr CHR '')''])]) (pre, pin @ r, c))"
    and T: "T \<noteq> []" "list_all dot T"
    and Y: "length Y = 4" "list_all digit Y"
  shows "rm FULL_CITATION ([], H @ '' '' @ pin @ K @ '' '' @ T @ '' '' @ Y, []) \<noteq> []"
proof -
  let ?A = "Alt (LitI ''Section'') (Seq (LitI ''s'') (Opt (Chr CHR ''.'')))"
  define r1 where "r1 = '' '' @ pin @ K @ '' '' @ T @ '' '' @ Y"
  define r2 where "r2 = pin @ K @ '' '' @ T @ '' '' @ Y"
  define r3 where "r3 = K @ '' '' @ T @ '' '' @ Y"
  define r4 where "r4 = '' '' @ T @ '' '' @ Y"
  define r5 where "r5 = T @ '' '' @ Y"
  define r6 where "r6 = '' '' @ Y"
  define p1 where "p1 = rev H"
  define p2 where "p2 = CHR '' '' # p1"
  define p3 where "p3 = rev pin @ p2"
  define p4 where "p4 = rev K @ p3"
  define p5 where "p5 = CHR '' '' # p4"
  define p6 where "p6 = rev T @ p5"
  define p7 where "p7 = CHR '' '' # p6"
  define p8 where "p8 = rev Y @ p7"
  define c1 where "c1 = [(1::nat, pin)]"
  define c2 where "c2 = (2, T) # c1"
  define c3 where "c3 = (3, Y) # c2"
  have sp: "'' '' \<noteq> []" "list_all space '' ''"
    by (simp_all add: space_def)
  have 0: "([], H @ r1, []) \<in> set (rm Bol ([], H @ r1, []))"
    by (rule Bol_intro)
  have 1: "(p1, r1, []) \<in> set (rm ?A ([], H @ r1, []))"
  proof -
    from H show ?thesis
    proof
      assume "H = ''Section'' \<and> K = '',''"
      then have h: "H = ''Section''" by simp
      have "(rev ''Section'' @ [], r1, []) \<in> set (rm (LitI ''Section'') ([], ''Section'' @ r1, []))"
        by (rule LitI_intro)
      then show ?thesis
        unfolding in_rm_Alt p1_def h by simp
    next
      assume "H = ''s.'' \<and> K = []"
      then have h: "H = ''s.''" by simp
      have a: "(rev ''s'' @ [], ''.'' @ r1, []) \<in> set (rm (LitI ''s'') ([], ''s'' @ ''.'' @ r1, []))"
        by (rule LitI_intro)
      have b: "(CHR ''.'' # rev ''s'' @ [], r1, []) \<in> set (rm (Opt (Chr CHR ''.'')) (rev ''s'' @ [], ''.'' @ r1, []))"
        unfolding in_rm_Opt using Chr_intro [of "CHR ''.''" "rev ''s'' @ []" r1 "[]"] by simp
      have "(CHR ''.'' # rev ''s'' @ [], r1, [])
              \<in> set (rm (Seq (LitI ''s'') (Opt (Chr CHR ''.''))) ([], ''s'' @ ''.'' @ r1, []))"
        by (rule Seq_intro [OF a b])
      then show ?thesis
        unfolding in_rm_Alt p1_def h by simp
    qed
  qed
  have 2: "(p2, r2, []) \<in> set (rm (Plus True (Atom space)) (p1, r1, []))"
    using rm_Plus_Atom_mem [OF sp, of p1 r2 "[]" True] by (simp add: p2_def r1_def r2_def)
  have 3: "(p3, r3, c1) \<in> set (rm (Group 1
        (Seqs [Plus True (Atom digit),
               Star True (Seqs [Chr CHR ''('', Plus True (Atom digit), Chr CHR '')'']),
               Star True (Seqs [Chr CHR ''('', Atom letter, Chr CHR '')''])])) (p2, r2, []))"
    unfolding p3_def r2_def r3_def c1_def by (rule Group_intro) (rule pin)
  have 4: "(p3, r3, c1) \<in> set (rm (Star True (Atom space)) (p3, r3, c1))"
    by (rule in_rm_Star_self)
  have 5: "(p4, r4, c1) \<in> set (rm (Opt (Chr CHR '','')) (p3, r3, c1))"
  proof -
    from H have "K = '','' \<or> K = []" by blast
    then show ?thesis
    proof
      assume k: "K = '',''"
      show ?thesis
        unfolding in_rm_Opt p4_def r3_def r4_def k
        using Chr_intro [of "CHR '',''" p3 "'' '' @ T @ '' '' @ Y" c1] by simp
    next
      assume k: "K = []"
      show ?thesis
        unfolding in_rm_Opt p4_def r3_def r4_def k by simp
    qed
  qed
  have 6: "(p5, r5, c1) \<in> set (rm (Plus True (Atom space)) (p4, r4, c1))"
    using rm_Plus_Atom_mem [OF sp, of p4 r5 c1 True] by (simp add: p5_def r4_def r5_def)
  have 7: "(p6, r6, c2) \<in> set (rm (Group 2 (Plus False (Atom dot))) (p5, r5, c1))"
    unfolding p6_def r5_def r6_def c2_def by (rule Group_intro) (rule rm_Plus_Atom_mem [OF T])
  have 8: "(p7, Y, c2) \<in> set (rm (Plus True (Atom space)) (p6, r6, c2))"
    using rm_Plus_Atom_mem [OF sp, of p6 Y c2 True] by (simp add: p7_def r6_def)
  have "(rev Y @ p7, [], (3, Y) # c2)
          \<in> set (rm (Group 3 (Seqs [Atom digit, Atom digit, Atom digit, Atom digit])) (p7, Y @ [], c2))"
    by (rule Group_intro) (rule four_atoms_intro [OF Y])
  then have 9: "(p8, [], c3)
          \<in> set (rm (Group 3 (Seqs [Atom digit, Atom digit, Atom digit, Atom digit])) (p7, Y, c2))"
    by (simp add: p8_def c3_def)
  have 10: "(p8, [], c3) \<in> set (rm (Seqs [Eol]) (p8, [], c3))"
    by (intro Seqs_end_intro Eol_intro)
  have "(p8, [], c3) \<in> set (rm FULL_CITATION ([], H @ r1, []))"
    unfolding FULL_CITATION_def
    by (rule Seqs_intro [OF 0], rule Seqs_intro [OF 1], rule Seqs_intro [OF 2], rule Seqs_intro [OF 3],
        rule Seqs_intro [OF 4], rule Seqs_intro [OF 5], rule Seqs_intro [OF 6], rule Seqs_intro [OF 7],
        rule Seqs_intro [OF 8], rule Seqs_intro [OF 9], rule 10)
  then show ?thesis
    unfolding r1_def by auto
qed

text \<open>The pieces of a formatted citation are determined.\<close>

lemma citation_split_unique:
  assumes eq: "H @ '' '' @ pin @ K @ '' '' @ T @ '' '' @ Y = a @ w1 @ g1 @ w2 @ k @ w3 @ g2 @ w4 @ g3"
    and H: "list_all (\<lambda>c. \<not> space c) H"
    and pin: "pin \<noteq> []" "list_all (\<lambda>c. digit c \<or> c = CHR ''('' \<or> c = CHR '')'' \<or> letter c) pin"
    and K: "K = '','' \<or> (K = [] \<and> hd T \<noteq> CHR '','')"
    and T: "T \<noteq> []" "\<not> space (hd T)" "\<not> space (last T)"
    and Y: "length Y = 4"
    and a: "list_all (\<lambda>c. \<not> space c) a"
    and w1: "w1 \<noteq> []" "list_all space w1"
    and g1: "list_all (\<lambda>c. digit c \<or> c = CHR ''('' \<or> c = CHR '')'' \<or> letter c) g1"
    and w2: "list_all space w2"
    and k: "k = [] \<or> k = '',''"
    and w3: "w3 \<noteq> []" "list_all space w3"
    and w4: "w4 \<noteq> []" "list_all space w4"
    and g3: "length g3 = 4"
  shows "g1 = pin \<and> g2 = T \<and> g3 = Y"
proof -
  have sp: "space CHR '' ''" "\<not> space CHR '',''"
    by (simp_all add: space_def)
  have hw1: "space (hd w1)"
    by (rule list_all_hd [OF w1(2) w1(1)])
  have hw3: "space (hd w3)"
    by (rule list_all_hd [OF w3(2) w3(1)])
  have hpin: "\<not> space (hd pin)"
    using pin_char_not_space [OF list_all_hd [OF pin(2) pin(1)]] by simp
  \<comment> \<open>the head word\<close>
  have "a = H \<and> w1 @ g1 @ w2 @ k @ w3 @ g2 @ w4 @ g3 = '' '' @ pin @ K @ '' '' @ T @ '' '' @ Y"
  proof (rule prefix_until_stop [where good = "\<lambda>c. \<not> space c"])
    show "H @ '' '' @ pin @ K @ '' '' @ T @ '' '' @ Y = a @ w1 @ g1 @ w2 @ k @ w3 @ g2 @ w4 @ g3"
      by (rule eq)
    show "'' '' @ pin @ K @ '' '' @ T @ '' '' @ Y = [] \<or>
          \<not> \<not> space (hd ('' '' @ pin @ K @ '' '' @ T @ '' '' @ Y))"
      using sp by simp
    show "w1 @ g1 @ w2 @ k @ w3 @ g2 @ w4 @ g3 = [] \<or> \<not> \<not> space (hd (w1 @ g1 @ w2 @ k @ w3 @ g2 @ w4 @ g3))"
      using hw1 w1(1) by simp
  qed (rule H, rule a)
  then have e1: "CHR '' '' # (pin @ K @ '' '' @ T @ '' '' @ Y) = w1 @ (g1 @ w2 @ k @ w3 @ g2 @ w4 @ g3)"
    by simp
  \<comment> \<open>one space\<close>
  have "w1 = '' '' \<and> g1 @ w2 @ k @ w3 @ g2 @ w4 @ g3 = pin @ K @ '' '' @ T @ '' '' @ Y"
    using e1 w1
  proof (rule one_space_before)
    show "pin @ K @ '' '' @ T @ '' '' @ Y \<noteq> []" using pin(1) by simp
    show "\<not> space (hd (pin @ K @ '' '' @ T @ '' '' @ Y))" using hpin pin(1) by simp
  qed
  then have e2: "pin @ (K @ '' '' @ T @ '' '' @ Y) = g1 @ (w2 @ k @ w3 @ g2 @ w4 @ g3)"
    by simp
  \<comment> \<open>the section reference\<close>
  have hk: "\<not> (digit (hd (w2 @ k @ w3 @ g2 @ w4 @ g3)) \<or> hd (w2 @ k @ w3 @ g2 @ w4 @ g3) = CHR ''(''
              \<or> hd (w2 @ k @ w3 @ g2 @ w4 @ g3) = CHR '')'' \<or> letter (hd (w2 @ k @ w3 @ g2 @ w4 @ g3)))"
  proof
    assume "digit (hd (w2 @ k @ w3 @ g2 @ w4 @ g3)) \<or> hd (w2 @ k @ w3 @ g2 @ w4 @ g3) = CHR ''(''
              \<or> hd (w2 @ k @ w3 @ g2 @ w4 @ g3) = CHR '')'' \<or> letter (hd (w2 @ k @ w3 @ g2 @ w4 @ g3))"
    from pin_char_not_space [OF this]
    have n: "\<not> space (hd (w2 @ k @ w3 @ g2 @ w4 @ g3))" "hd (w2 @ k @ w3 @ g2 @ w4 @ g3) \<noteq> CHR '',''"
      by simp_all
    show False
    proof (cases "w2 = []")
      case False
      with n(1) list_all_hd [OF w2 False] show False by simp
    next
      case True
      with k n hw3 w3(1) show False by auto
    qed
  qed
  have hK: "\<not> (digit (hd (K @ '' '' @ T @ '' '' @ Y)) \<or> hd (K @ '' '' @ T @ '' '' @ Y) = CHR ''(''
              \<or> hd (K @ '' '' @ T @ '' '' @ Y) = CHR '')'' \<or> letter (hd (K @ '' '' @ T @ '' '' @ Y)))"
  proof
    assume "digit (hd (K @ '' '' @ T @ '' '' @ Y)) \<or> hd (K @ '' '' @ T @ '' '' @ Y) = CHR ''(''
              \<or> hd (K @ '' '' @ T @ '' '' @ Y) = CHR '')'' \<or> letter (hd (K @ '' '' @ T @ '' '' @ Y))"
    from pin_char_not_space [OF this] K sp show False by auto
  qed
  have "g1 = pin \<and> w2 @ k @ w3 @ g2 @ w4 @ g3 = K @ '' '' @ T @ '' '' @ Y"
    using e2 pin(2) g1
  proof (rule prefix_until_stop)
    show "K @ '' '' @ T @ '' '' @ Y = [] \<or>
          \<not> (digit (hd (K @ '' '' @ T @ '' '' @ Y)) \<or> hd (K @ '' '' @ T @ '' '' @ Y) = CHR ''(''
              \<or> hd (K @ '' '' @ T @ '' '' @ Y) = CHR '')'' \<or> letter (hd (K @ '' '' @ T @ '' '' @ Y)))"
      using hK by blast
    show "w2 @ k @ w3 @ g2 @ w4 @ g3 = [] \<or>
          \<not> (digit (hd (w2 @ k @ w3 @ g2 @ w4 @ g3)) \<or> hd (w2 @ k @ w3 @ g2 @ w4 @ g3) = CHR ''(''
              \<or> hd (w2 @ k @ w3 @ g2 @ w4 @ g3) = CHR '')'' \<or> letter (hd (w2 @ k @ w3 @ g2 @ w4 @ g3)))"
      using hk by blast
  qed
  then have r1: "g1 = pin" and e3: "w2 @ k @ w3 @ g2 @ w4 @ g3 = K @ '' '' @ T @ '' '' @ Y"
    by simp_all
  \<comment> \<open>the separator\<close>
  have e4: "w3 @ (g2 @ w4 @ g3) = CHR '' '' # (T @ '' '' @ Y) \<and> w2 @ k = K"
  proof -
    from K show ?thesis
    proof
      assume K1: "K = '',''"
      have "w2 = []"
        using no_space_prefix [of "CHR '',''" "'' '' @ T @ '' '' @ Y" w2 "k @ w3 @ g2 @ w4 @ g3"]
          e3 w2 sp(2) by (simp add: K1)
      moreover have "k \<noteq> []"
      proof
        assume "k = []"
        with e3 K1 \<open>w2 = []\<close> have "hd w3 = CHR '',''"
          using w3(1) by (cases w3) auto
        with hw3 sp(2) show False by simp
      qed
      ultimately show ?thesis
        using e3 k K1 by auto
    next
      assume K2: "K = [] \<and> hd T \<noteq> CHR '',''"
      have e: "CHR '' '' # (T @ '' '' @ Y) = w2 @ (k @ w3 @ g2 @ w4 @ g3)"
        using e3 K2 by simp
      show ?thesis
      proof (cases "w2 = []")
        case True
        have "k = []"
        proof (rule ccontr)
          assume "k \<noteq> []"
          with k have "k = '',''" by simp
          with e True show False by simp
        qed
        with e True K2 show ?thesis by simp
      next
        case False
        from one_space_before [OF e False w2] T(1,2)
        have x: "w2 = '' ''" "k @ w3 @ g2 @ w4 @ g3 = T @ '' '' @ Y"
          by simp_all
        have "k = []"
        proof (rule ccontr)
          assume "k \<noteq> []"
          with k have "k = '',''" by simp
          with x(2) T(1) have "hd T = CHR '',''"
            by (cases T) auto
          with K2 show False by simp
        qed
        with x(2) have "hd T = hd w3"
          using w3(1) T(1) by (cases T; cases w3) auto
        with hw3 T(2) show ?thesis by simp
      qed
    qed
  qed
  have "w3 = '' '' \<and> g2 @ w4 @ g3 = T @ '' '' @ Y"
  proof (rule one_space_before)
    show "CHR '' '' # (T @ '' '' @ Y) = w3 @ (g2 @ w4 @ g3)"
      using e4 by simp
    show "T @ '' '' @ Y \<noteq> []" using T(1) by simp
    show "\<not> space (hd (T @ '' '' @ Y))" using T(1,2) by simp
  qed (rule w3)+
  then have e5: "(g2 @ w4) @ g3 = (T @ '' '') @ Y"
    by simp
  \<comment> \<open>the year and the title\<close>
  have l: "length g3 = length Y"
    using g3 Y by simp
  have "g2 @ w4 = T @ '' '' \<and> g3 = Y"
    using e5 append_eq_append_conv [of "g2 @ w4" "T @ '' ''" g3 Y] l by blast
  then have e6: "g2 @ w4 = T @ '' ''" and r3: "g3 = Y"
    by simp_all
  have "w4 = '' '' \<and> g2 = T"
    using e6 [symmetric] w4 T(1,3) by (rule one_space_after)
  with r1 r3 show ?thesis by simp
qed

subsection \<open>The section reference\<close>

text \<open>A section reference: the section, then the subsection and the paragraph in brackets.\<close>

definition paren :: "string option \<Rightarrow> string" where
  "paren v = (case v of None \<Rightarrow> [] | Some t \<Rightarrow> ''('' @ t @ '')'')"

lemma paren_hd: "paren a @ paren b = [] \<or> hd (paren a @ paren b) = CHR ''(''"
  by (cases a; cases b) (simp_all add: paren_def)

lemma rm_Chr_elim:
  assumes "w \<in> set (rm (Chr d) v)"
  shows "fst (snd v) = d # fst (snd w) \<and> snd (snd w) = snd (snd v)"
  using assms by (cases v) (auto simp: in_rm_Chr)

lemma rm_Group_Atom_elim:
  assumes "y \<in> set (rm (Group n (Atom p)) x)"
  shows "\<exists>a. p a \<and> fst (snd x) = a # fst (snd y) \<and> snd (snd y) = (n, [a]) # snd (snd x)"
proof -
  from assms obtain z where z: "z \<in> set (rm (Atom p) x)"
    and y: "y = (fst z, fst (snd z),
                 (n, take (length (fst (snd x)) - length (fst (snd z))) (fst (snd x))) # snd (snd z))"
    unfolding in_rm_Group by blast
  from z obtain a where a: "p a" "fst (snd x) = a # fst (snd z)" "snd (snd z) = snd (snd x)"
    by (cases x) (auto simp: in_rm_Atom)
  have "take (length (fst (snd x)) - length (fst (snd z))) (fst (snd x)) = [a]"
    unfolding a(2) by simp
  with y a show ?thesis by simp
qed

lemma Star_once:
  assumes "(rev u @ pre, r, c) \<in> set (rm a (pre, u @ r, c))" and "u \<noteq> []"
  shows "(rev u @ pre, r, c) \<in> set (rm (Star g a) (pre, u @ r, c))"
proof (rule in_rm_Star_step [OF assms(1)])
  show "length (fst (snd (rev u @ pre, r, c))) < length (fst (snd (pre, u @ r, c)))"
    using assms(2) by simp
  show "(rev u @ pre, r, c) \<in> set (rm (Star g a) (rev u @ pre, r, c))"
    by (rule in_rm_Star_self)
qed

lemma bracket_digits_intro:
  assumes "t \<noteq> []" and "list_all digit t"
  shows "(rev (''('' @ t @ '')'') @ pre, r, c)
           \<in> set (rm (Seqs [Chr CHR ''('', Plus True (Atom digit), Chr CHR '')''])
                      (pre, (''('' @ t @ '')'') @ r, c))"
proof -
  have 1: "(CHR ''('' # pre, t @ '')'' @ r, c) \<in> set (rm (Chr CHR ''('') (pre, CHR ''('' # t @ '')'' @ r, c))"
    by (rule Chr_intro)
  have 2: "(rev t @ CHR ''('' # pre, '')'' @ r, c)
            \<in> set (rm (Plus True (Atom digit)) (CHR ''('' # pre, t @ '')'' @ r, c))"
    by (rule rm_Plus_Atom_mem [OF assms])
  have 3: "(CHR '')'' # rev t @ CHR ''('' # pre, r, c)
            \<in> set (rm (Chr CHR '')'') (rev t @ CHR ''('' # pre, CHR '')'' # r, c))"
    by (rule Chr_intro)
  have "(CHR '')'' # rev t @ CHR ''('' # pre, r, c)
          \<in> set (rm (Seqs [Chr CHR ''('', Plus True (Atom digit), Chr CHR '')''])
                     (pre, CHR ''('' # t @ '')'' @ r, c))"
    by (rule Seqs_intro [OF 1], rule Seqs_intro [OF 2], rule Seqs_end_intro) (use 3 in simp)
  then show ?thesis by simp
qed

lemma bracket_atom_intro:
  assumes "q p"
  shows "(rev (''('' @ [p] @ '')'') @ pre, r, c)
           \<in> set (rm (Seqs [Chr CHR ''('', Atom q, Chr CHR '')''])
                      (pre, (''('' @ [p] @ '')'') @ r, c))"
proof -
  have 1: "(CHR ''('' # pre, p # '')'' @ r, c) \<in> set (rm (Chr CHR ''('') (pre, CHR ''('' # p # '')'' @ r, c))"
    by (rule Chr_intro)
  have 2: "(p # CHR ''('' # pre, '')'' @ r, c)
            \<in> set (rm (Atom q) (CHR ''('' # pre, p # '')'' @ r, c))"
    by (rule Atom_intro [where p = q and d = p, OF assms])
  have 3: "(CHR '')'' # p # CHR ''('' # pre, r, c)
            \<in> set (rm (Chr CHR '')'') (p # CHR ''('' # pre, CHR '')'' # r, c))"
    by (rule Chr_intro)
  have "(CHR '')'' # p # CHR ''('' # pre, r, c)
          \<in> set (rm (Seqs [Chr CHR ''('', Atom q, Chr CHR '')''])
                     (pre, CHR ''('' # p # '')'' @ r, c))"
    by (rule Seqs_intro [OF 1], rule Seqs_intro [OF 2], rule Seqs_end_intro) (use 3 in simp)
  then show ?thesis by simp
qed

lemma pin_body_match:
  assumes sec: "sec \<noteq> []" "list_all digit sec"
    and sub: "\<And>t. sub = Some t \<Longrightarrow> t \<noteq> [] \<and> list_all digit t"
    and par: "\<And>t. par = Some t \<Longrightarrow> \<exists>p. t = [p] \<and> letter p"
  shows "(rev (sec @ paren sub @ paren par) @ pre, r, c)
           \<in> set (rm (Seqs [Plus True (Atom digit),
                             Star True (Seqs [Chr CHR ''('', Plus True (Atom digit), Chr CHR '')'']),
                             Star True (Seqs [Chr CHR ''('', Atom letter, Chr CHR '')''])])
                      (pre, (sec @ paren sub @ paren par) @ r, c))"
proof -
  define p1 where "p1 = rev sec @ pre"
  define p2 where "p2 = rev (paren sub) @ p1"
  define p3 where "p3 = rev (paren par) @ p2"
  have 1: "(p1, paren sub @ paren par @ r, c)
             \<in> set (rm (Plus True (Atom digit)) (pre, sec @ paren sub @ paren par @ r, c))"
    unfolding p1_def by (rule rm_Plus_Atom_mem [OF sec])
  have 2: "(p2, paren par @ r, c)
             \<in> set (rm (Star True (Seqs [Chr CHR ''('', Plus True (Atom digit), Chr CHR '')'']))
                        (p1, paren sub @ paren par @ r, c))"
  proof (cases sub)
    case None
    then show ?thesis
      unfolding p2_def using in_rm_Star_self [of "(p1, paren par @ r, c)"] by (simp add: paren_def)
  next
    case (Some t)
    have "(rev (''('' @ t @ '')'') @ p1, paren par @ r, c)
           \<in> set (rm (Star True (Seqs [Chr CHR ''('', Plus True (Atom digit), Chr CHR '')'']))
                      (p1, (''('' @ t @ '')'') @ paren par @ r, c))"
      using sub [OF Some] by (intro Star_once bracket_digits_intro) simp_all
    then show ?thesis
      unfolding p2_def by (simp add: Some paren_def)
  qed
  have 3: "(p3, r, c)
             \<in> set (rm (Star True (Seqs [Chr CHR ''('', Atom letter, Chr CHR '')'']))
                        (p2, paren par @ r, c))"
  proof (cases par)
    case None
    then show ?thesis
      unfolding p3_def using in_rm_Star_self [of "(p2, r, c)"] by (simp add: paren_def)
  next
    case (Some t)
    from par [OF Some] obtain p where p: "t = [p]" "letter p" by blast
    have "(rev (''('' @ [p] @ '')'') @ p2, r, c)
           \<in> set (rm (Star True (Seqs [Chr CHR ''('', Atom letter, Chr CHR '')'']))
                      (p2, (''('' @ [p] @ '')'') @ r, c))"
      using p(2) by (intro Star_once bracket_atom_intro) simp_all
    then show ?thesis
      unfolding p3_def by (simp add: Some p(1) paren_def)
  qed
  have "(p3, r, c)
           \<in> set (rm (Seqs [Plus True (Atom digit),
                             Star True (Seqs [Chr CHR ''('', Plus True (Atom digit), Chr CHR '')'']),
                             Star True (Seqs [Chr CHR ''('', Atom letter, Chr CHR '')''])])
                      (pre, sec @ paren sub @ paren par @ r, c))"
    by (rule Seqs_intro [OF 1], rule Seqs_intro [OF 2], rule Seqs_end_intro [OF 3])
  then show ?thesis
    by (simp add: p3_def p2_def p1_def)
qed

lemma pin_chars:
  assumes sec: "list_all digit sec"
    and sub: "\<And>t. sub = Some t \<Longrightarrow> t \<noteq> [] \<and> list_all digit t"
    and par: "\<And>t. par = Some t \<Longrightarrow> \<exists>p. t = [p] \<and> letter p"
  shows "list_all (\<lambda>c. digit c \<or> c = CHR ''('' \<or> c = CHR '')'' \<or> letter c) (sec @ paren sub @ paren par)"
proof -
  have 1: "list_all (\<lambda>c. digit c \<or> c = CHR ''('' \<or> c = CHR '')'' \<or> letter c) sec"
    by (rule list_all_weaken [OF sec]) simp
  have 2: "list_all (\<lambda>c. digit c \<or> c = CHR ''('' \<or> c = CHR '')'' \<or> letter c) (paren sub)"
  proof (cases sub)
    case None
    then show ?thesis by (simp add: paren_def)
  next
    case (Some t)
    from sub [OF Some] have "list_all (\<lambda>c. digit c \<or> c = CHR ''('' \<or> c = CHR '')'' \<or> letter c) t"
      by (auto simp: list_all_iff)
    then show ?thesis by (simp add: Some paren_def)
  qed
  have 3: "list_all (\<lambda>c. digit c \<or> c = CHR ''('' \<or> c = CHR '')'' \<or> letter c) (paren par)"
  proof (cases par)
    case None
    then show ?thesis by (simp add: paren_def)
  next
    case (Some t)
    from par [OF Some] show ?thesis by (auto simp: Some paren_def)
  qed
  from 1 2 3 show ?thesis by simp
qed

text \<open>Every match of \<open>SECTION_REF\<close> splits its text in three pieces.\<close>

lemma SECTION_REF_member:
  assumes "y \<in> set (rm SECTION_REF ([], s, []))"
  shows "\<exists>g1 o2 o3. s = g1 @ paren o2 @ paren o3 \<and> list_all digit g1
     \<and> (\<forall>t. o2 = Some t \<longrightarrow> t \<noteq> [] \<and> list_all digit t)
     \<and> (\<forall>t. o3 = Some t \<longrightarrow> (\<exists>p. t = [p] \<and> lower p))
     \<and> cap y 1 = Some g1 \<and> cap y 2 = o2 \<and> cap y 3 = o3"
proof -
  from assms obtain z0 z1 z2 z3 where
    0: "z0 \<in> set (rm Bol ([], s, []))"
    and 1: "z1 \<in> set (rm (Group 1 (Plus True (Atom digit))) z0)"
    and 2: "z2 \<in> set (rm (Opt (Seqs [Chr CHR ''('', Group 2 (Plus True (Atom digit)), Chr CHR '')''])) z1)"
    and 3: "z3 \<in> set (rm (Opt (Seqs [Chr CHR ''('', Group 3 (Atom lower), Chr CHR '')''])) z2)"
    and 4: "y \<in> set (rm Eol z3)"
    unfolding SECTION_REF_def in_rm_Seqs_Cons [of _ Bol] in_rm_Seqs_Cons [of _ "Group 1 (Plus True (Atom digit))"]
      in_rm_Seqs_Cons [of _ "Opt (Seqs [Chr CHR ''('', Group 2 (Plus True (Atom digit)), Chr CHR '')''])"]
      in_rm_Seqs_Cons [of _ "Opt (Seqs [Chr CHR ''('', Group 3 (Atom lower), Chr CHR '')''])"]
      in_rm_Seqs_Cons [of _ Eol] in_rm_Seqs_Nil
    by blast
  from 0 have e0: "fst (snd z0) = s" "snd (snd z0) = []"
    unfolding in_rm_Bol by simp_all
  from rm_Group_Plus_Atom_elim [OF 1] obtain g1 where
    e1: "list_all digit g1" "fst (snd z0) = g1 @ fst (snd z1)" "snd (snd z1) = (1, g1) # snd (snd z0)"
    by blast
  have "\<exists>o2. fst (snd z1) = paren o2 @ fst (snd z2)
          \<and> (\<forall>t. o2 = Some t \<longrightarrow> t \<noteq> [] \<and> list_all digit t)
          \<and> snd (snd z2) = (case o2 of None \<Rightarrow> [] | Some t \<Rightarrow> [(2, t)]) @ snd (snd z1)"
  proof -
    from 2 have "z2 \<in> set (rm (Seqs [Chr CHR ''('', Group 2 (Plus True (Atom digit)), Chr CHR '')'']) z1)
        \<or> z2 = z1"
      unfolding in_rm_Opt .
    then show ?thesis
    proof
      assume "z2 = z1"
      then have "fst (snd z1) = paren None @ fst (snd z2)
          \<and> (\<forall>t. (None :: string option) = Some t \<longrightarrow> t \<noteq> [] \<and> list_all digit t)
          \<and> snd (snd z2) = (case (None :: string option) of None \<Rightarrow> [] | Some t \<Rightarrow> [(2, t)]) @ snd (snd z1)"
        by (simp add: paren_def)
      then show ?thesis by blast
    next
      assume "z2 \<in> set (rm (Seqs [Chr CHR ''('', Group 2 (Plus True (Atom digit)), Chr CHR '')'']) z1)"
      then obtain q1 q2 where q: "q1 \<in> set (rm (Chr CHR ''('') z1)"
        "q2 \<in> set (rm (Group 2 (Plus True (Atom digit))) q1)" "z2 \<in> set (rm (Chr CHR '')'') q2)"
        unfolding in_rm_Seqs_Cons in_rm_Seqs_Nil by blast
      from rm_Group_Plus_Atom_elim [OF q(2)] obtain t where
        t: "t \<noteq> []" "list_all digit t" "fst (snd q1) = t @ fst (snd q2)"
          "snd (snd q2) = (2, t) # snd (snd q1)"
        by blast
      from rm_Chr_elim [OF q(1)] rm_Chr_elim [OF q(3)] t
      have "fst (snd z1) = paren (Some t) @ fst (snd z2)
          \<and> (\<forall>t'. Some t = Some t' \<longrightarrow> t' \<noteq> [] \<and> list_all digit t')
          \<and> snd (snd z2) = (case Some t of None \<Rightarrow> [] | Some t \<Rightarrow> [(2, t)]) @ snd (snd z1)"
        by (simp add: paren_def)
      then show ?thesis by blast
    qed
  qed
  then obtain o2 where e2: "fst (snd z1) = paren o2 @ fst (snd z2)"
    "\<forall>t. o2 = Some t \<longrightarrow> t \<noteq> [] \<and> list_all digit t"
    "snd (snd z2) = (case o2 of None \<Rightarrow> [] | Some t \<Rightarrow> [(2, t)]) @ snd (snd z1)"
    by blast
  have "\<exists>o3. fst (snd z2) = paren o3 @ fst (snd z3)
          \<and> (\<forall>t. o3 = Some t \<longrightarrow> (\<exists>p. t = [p] \<and> lower p))
          \<and> snd (snd z3) = (case o3 of None \<Rightarrow> [] | Some t \<Rightarrow> [(3, t)]) @ snd (snd z2)"
  proof -
    from 3 have "z3 \<in> set (rm (Seqs [Chr CHR ''('', Group 3 (Atom lower), Chr CHR '')'']) z2)
        \<or> z3 = z2"
      unfolding in_rm_Opt .
    then show ?thesis
    proof
      assume "z3 = z2"
      then have "fst (snd z2) = paren None @ fst (snd z3)
          \<and> (\<forall>t. (None :: string option) = Some t \<longrightarrow> (\<exists>p. t = [p] \<and> lower p))
          \<and> snd (snd z3) = (case (None :: string option) of None \<Rightarrow> [] | Some t \<Rightarrow> [(3, t)]) @ snd (snd z2)"
        by (simp add: paren_def)
      then show ?thesis by blast
    next
      assume "z3 \<in> set (rm (Seqs [Chr CHR ''('', Group 3 (Atom lower), Chr CHR '')'']) z2)"
      then obtain q1 q2 where q: "q1 \<in> set (rm (Chr CHR ''('') z2)"
        "q2 \<in> set (rm (Group 3 (Atom lower)) q1)" "z3 \<in> set (rm (Chr CHR '')'') q2)"
        unfolding in_rm_Seqs_Cons in_rm_Seqs_Nil by blast
      from rm_Group_Atom_elim [OF q(2)] obtain p where
        p: "lower p" "fst (snd q1) = p # fst (snd q2)" "snd (snd q2) = (3, [p]) # snd (snd q1)"
        by blast
      from rm_Chr_elim [OF q(1)] rm_Chr_elim [OF q(3)] p
      have "fst (snd z2) = paren (Some [p]) @ fst (snd z3)
          \<and> (\<forall>t'. Some [p] = Some t' \<longrightarrow> (\<exists>p. t' = [p] \<and> lower p))
          \<and> snd (snd z3) = (case Some [p] of None \<Rightarrow> [] | Some t \<Rightarrow> [(3, t)]) @ snd (snd z2)"
        by (simp add: paren_def)
      then show ?thesis by blast
    qed
  qed
  then obtain o3 where e3: "fst (snd z2) = paren o3 @ fst (snd z3)"
    "\<forall>t. o3 = Some t \<longrightarrow> (\<exists>p. t = [p] \<and> lower p)"
    "snd (snd z3) = (case o3 of None \<Rightarrow> [] | Some t \<Rightarrow> [(3, t)]) @ snd (snd z2)"
    by blast
  from 4 have e4: "y = z3" "fst (snd z3) = []"
    unfolding in_rm_Eol by simp_all
  have s: "s = g1 @ paren o2 @ paren o3"
    using e0(1) e1(2) e2(1) e3(1) e4(2) by simp
  have c: "snd (snd y) = (case o3 of None \<Rightarrow> [] | Some t \<Rightarrow> [(3, t)])
                          @ (case o2 of None \<Rightarrow> [] | Some t \<Rightarrow> [(2, t)]) @ [(1, g1)]"
    using e0(2) e1(3) e2(3) e3(3) e4(1) by simp
  have "cap y 1 = Some g1 \<and> cap y 2 = o2 \<and> cap y 3 = o3"
    unfolding cap_def c by (cases o2; cases o3) simp_all
  with s e1(1) e2(2) e3(2) show ?thesis by blast
qed

lemma SECTION_REF_match:
  assumes sec: "sec \<noteq> []" "list_all digit sec"
    and sub: "\<And>t. sub = Some t \<Longrightarrow> t \<noteq> [] \<and> list_all digit t"
    and par: "\<And>t. par = Some t \<Longrightarrow> \<exists>p. t = [p] \<and> lower p"
  shows "rm SECTION_REF ([], sec @ paren sub @ paren par, []) \<noteq> []"
proof -
  define c1 where "c1 = [(1::nat, sec)]"
  define p1 where "p1 = rev sec"
  have 0: "([], sec @ paren sub @ paren par, []) \<in> set (rm Bol ([], sec @ paren sub @ paren par, []))"
    by (rule Bol_intro)
  have 1: "(p1, paren sub @ paren par, c1)
            \<in> set (rm (Group 1 (Plus True (Atom digit))) ([], sec @ paren sub @ paren par, []))"
    using Group_intro [OF rm_Plus_Atom_mem [OF sec, where pre = "[]" and r = "paren sub @ paren par"
          and c = "[]" and g = True], where n = 1]
    by (simp add: p1_def c1_def)
  have "\<exists>p2 c2. (p2, paren par, c2)
            \<in> set (rm (Opt (Seqs [Chr CHR ''('', Group 2 (Plus True (Atom digit)), Chr CHR '')'']))
                       (p1, paren sub @ paren par, c1))"
  proof (cases sub)
    case None
    have "(p1, paren par, c1) \<in> set (rm (Opt (Seqs [Chr CHR ''('', Group 2 (Plus True (Atom digit)), Chr CHR '')'']))
                       (p1, paren None @ paren par, c1))"
      unfolding in_rm_Opt by (simp add: paren_def)
    then show ?thesis unfolding None by blast
  next
    case (Some t)
    have a: "(CHR ''('' # p1, t @ '')'' @ paren par, c1)
               \<in> set (rm (Chr CHR ''('') (p1, CHR ''('' # t @ '')'' @ paren par, c1))"
      by (rule Chr_intro)
    have b: "(rev t @ CHR ''('' # p1, '')'' @ paren par, (2, t) # c1)
               \<in> set (rm (Group 2 (Plus True (Atom digit))) (CHR ''('' # p1, t @ '')'' @ paren par, c1))"
      using sub [OF Some] by (intro Group_intro rm_Plus_Atom_mem) simp_all
    have c: "(CHR '')'' # rev t @ CHR ''('' # p1, paren par, (2, t) # c1)
               \<in> set (rm (Chr CHR '')'') (rev t @ CHR ''('' # p1, CHR '')'' # paren par, (2, t) # c1))"
      by (rule Chr_intro)
    have "(CHR '')'' # rev t @ CHR ''('' # p1, paren par, (2, t) # c1)
            \<in> set (rm (Seqs [Chr CHR ''('', Group 2 (Plus True (Atom digit)), Chr CHR '')''])
                       (p1, CHR ''('' # t @ '')'' @ paren par, c1))"
      by (rule Seqs_intro [OF a], rule Seqs_intro [OF b], rule Seqs_end_intro) (use c in simp)
    then have "(CHR '')'' # rev t @ CHR ''('' # p1, paren par, (2, t) # c1)
            \<in> set (rm (Opt (Seqs [Chr CHR ''('', Group 2 (Plus True (Atom digit)), Chr CHR '')'']))
                       (p1, paren (Some t) @ paren par, c1))"
      unfolding in_rm_Opt by (simp add: paren_def)
    then show ?thesis unfolding Some by blast
  qed
  then obtain p2 c2 where 2: "(p2, paren par, c2)
            \<in> set (rm (Opt (Seqs [Chr CHR ''('', Group 2 (Plus True (Atom digit)), Chr CHR '')'']))
                       (p1, paren sub @ paren par, c1))"
    by blast
  have "\<exists>p3 c3. (p3, [], c3)
            \<in> set (rm (Opt (Seqs [Chr CHR ''('', Group 3 (Atom lower), Chr CHR '')'']))
                       (p2, paren par, c2))"
  proof (cases par)
    case None
    have "(p2, [], c2) \<in> set (rm (Opt (Seqs [Chr CHR ''('', Group 3 (Atom lower), Chr CHR '')'']))
                       (p2, paren None, c2))"
      unfolding in_rm_Opt by (simp add: paren_def)
    then show ?thesis unfolding None by blast
  next
    case (Some t)
    from par [OF Some] obtain p where p: "t = [p]" "lower p" by blast
    have a: "(CHR ''('' # p2, [p] @ '')'', c2)
               \<in> set (rm (Chr CHR ''('') (p2, CHR ''('' # [p] @ '')'', c2))"
      by (rule Chr_intro)
    have "(p # CHR ''('' # p2, '')'', c2) \<in> set (rm (Atom lower) (CHR ''('' # p2, p # '')'', c2))"
      by (rule Atom_intro [where p = lower and d = p, OF p(2)])
    then have b: "(p # CHR ''('' # p2, '')'', (3, [p]) # c2)
               \<in> set (rm (Group 3 (Atom lower)) (CHR ''('' # p2, [p] @ '')'', c2))"
      by (intro Group_intro) simp
    have c: "(CHR '')'' # p # CHR ''('' # p2, [], (3, [p]) # c2)
               \<in> set (rm (Chr CHR '')'') (p # CHR ''('' # p2, CHR '')'' # [], (3, [p]) # c2))"
      by (rule Chr_intro)
    have "(CHR '')'' # p # CHR ''('' # p2, [], (3, [p]) # c2)
            \<in> set (rm (Seqs [Chr CHR ''('', Group 3 (Atom lower), Chr CHR '')''])
                       (p2, CHR ''('' # [p] @ '')'', c2))"
      by (rule Seqs_intro [OF a], rule Seqs_intro [OF b], rule Seqs_end_intro) (use c in simp)
    then have "(CHR '')'' # p # CHR ''('' # p2, [], (3, [p]) # c2)
            \<in> set (rm (Opt (Seqs [Chr CHR ''('', Group 3 (Atom lower), Chr CHR '')'']))
                       (p2, paren (Some [p]), c2))"
      unfolding in_rm_Opt by (simp add: paren_def)
    then show ?thesis unfolding Some p(1) by blast
  qed
  then obtain p3 c3 where 3: "(p3, [], c3)
            \<in> set (rm (Opt (Seqs [Chr CHR ''('', Group 3 (Atom lower), Chr CHR '')'']))
                       (p2, paren par, c2))"
    by blast
  have 4: "(p3, [], c3) \<in> set (rm (Seqs [Eol]) (p3, [], c3))"
    by (intro Seqs_end_intro Eol_intro)
  have "(p3, [], c3) \<in> set (rm SECTION_REF ([], sec @ paren sub @ paren par, []))"
    unfolding SECTION_REF_def
    by (rule Seqs_intro [OF 0], rule Seqs_intro [OF 1], rule Seqs_intro [OF 2], rule Seqs_intro [OF 3],
        rule 4)
  then show ?thesis by auto
qed

lemma paren_eq:
  assumes "paren a @ paren b = paren a' @ paren b'"
    and "\<And>t. a = Some t \<Longrightarrow> t \<noteq> [] \<and> list_all digit t"
    and "\<And>t. a' = Some t \<Longrightarrow> t \<noteq> [] \<and> list_all digit t"
    and "\<And>t. b = Some t \<Longrightarrow> \<exists>p. t = [p] \<and> lower p"
    and "\<And>t. b' = Some t \<Longrightarrow> \<exists>p. t = [p] \<and> lower p"
  shows "a = a' \<and> b = b'"
proof -
  have nb: "CHR '')'' \<notin> set t" if "list_all digit t" for t
    using that digit_not_paren by (auto simp: list_all_iff)
  have bb: "b = b'" if "paren b = paren b'"
  proof (cases b; cases b')
    fix t t' assume "b = Some t" "b' = Some t'"
    with that assms(4) [of t] assms(5) [of t'] show ?thesis
      by (auto simp: paren_def)
  qed (use that in \<open>simp_all add: paren_def\<close>)
  have mixed: False
    if "list_all digit t" "t \<noteq> []" "t @ '')'' @ x = [p] @ '')''" "lower p" for t x p
  proof -
    from that(2,3) have "hd t = p" by (cases t) auto
    with list_all_hd [OF that(1,2)] digit_not_lower that(4) show False by blast
  qed
  show ?thesis
  proof (cases a; cases a')
    assume "a = None" "a' = None"
    with assms(1) bb show ?thesis by (simp add: paren_def)
  next
    fix t assume a: "a = None" "a' = Some t"
    show ?thesis
    proof (cases b)
      case None
      with a assms(1) show ?thesis by (simp add: paren_def)
    next
      case (Some u)
      from assms(4) [OF Some] obtain p where "u = [p]" "lower p" by blast
      with a Some assms(1) assms(3) [of t] mixed [of t "paren b'" p] show ?thesis
        by (simp add: paren_def)
    qed
  next
    fix t assume a: "a = Some t" "a' = None"
    show ?thesis
    proof (cases b')
      case None
      with a assms(1) show ?thesis by (simp add: paren_def)
    next
      case (Some u)
      from assms(5) [OF Some] obtain p where "u = [p]" "lower p" by blast
      with a Some assms(1) assms(2) [of t] mixed [of t "paren b" p] show ?thesis
        by (simp add: paren_def)
    qed
  next
    fix t t' assume a: "a = Some t" "a' = Some t'"
    from assms(1) have "t @ CHR '')'' # paren b = t' @ CHR '')'' # paren b'"
      by (simp add: a paren_def)
    from first_split_unique [OF this] nb assms(2) [of t] assms(3) [of t'] a
    have "t = t' \<and> paren b = paren b'" by simp
    with a bb show ?thesis by simp
  qed
qed

lemma SECTION_REF_exec:
  assumes sec: "sec \<noteq> []" "list_all digit sec"
    and sub: "\<And>t. sub = Some t \<Longrightarrow> t \<noteq> [] \<and> list_all digit t"
    and par: "\<And>t. par = Some t \<Longrightarrow> \<exists>p. t = [p] \<and> lower p"
  shows "\<exists>m. exec SECTION_REF (sec @ paren sub @ paren par) = Some m
             \<and> cap m 1 = Some sec \<and> cap m 2 = sub \<and> cap m 3 = par"
proof (rule exec_first)
  show "rm SECTION_REF ([], sec @ paren sub @ paren par, []) \<noteq> []"
    by (rule SECTION_REF_match [OF sec sub par])
next
  fix y
  assume "y \<in> set (rm SECTION_REF ([], sec @ paren sub @ paren par, []))"
  from SECTION_REF_member [OF this] obtain g1 o2 o3 where
    m: "sec @ paren sub @ paren par = g1 @ paren o2 @ paren o3" "list_all digit g1"
      "\<forall>t. o2 = Some t \<longrightarrow> t \<noteq> [] \<and> list_all digit t"
      "\<forall>t. o3 = Some t \<longrightarrow> (\<exists>p. t = [p] \<and> lower p)"
      "cap y 1 = Some g1" "cap y 2 = o2" "cap y 3 = o3"
    by blast
  have nd: "\<not> digit CHR ''(''"
    by (simp add: digit_def)
  have "g1 = sec \<and> paren o2 @ paren o3 = paren sub @ paren par"
    using m(1) sec(2) m(2)
  proof (rule prefix_until_stop)
    show "paren sub @ paren par = [] \<or> \<not> digit (hd (paren sub @ paren par))"
      using paren_hd [of sub par] nd by auto
    show "paren o2 @ paren o3 = [] \<or> \<not> digit (hd (paren o2 @ paren o3))"
      using paren_hd [of o2 o3] nd by auto
  qed
  moreover from this have "o2 = sub \<and> o3 = par"
    using paren_eq [of o2 o3 sub par] m(3,4) sub par by blast
  ultimately show "cap y 1 = Some sec \<and> cap y 2 = sub \<and> cap y 3 = par"
    using m(5,6,7) by simp
qed

subsection \<open>The round trip\<close>

lemma FULL_CITATION_exec:
  assumes H: "(H = ''Section'' \<and> K = '','') \<or> (H = ''s.'' \<and> K = [] \<and> hd T \<noteq> CHR '','')"
    and sec: "sec \<noteq> []" "list_all digit sec"
    and sub: "\<And>t. sub = Some t \<Longrightarrow> t \<noteq> [] \<and> list_all digit t"
    and par: "\<And>t. par = Some t \<Longrightarrow> \<exists>p. t = [p] \<and> letter p"
    and T: "T \<noteq> []" "list_all dot T" "\<not> space (hd T)" "\<not> space (last T)"
    and Y: "length Y = 4" "list_all digit Y"
  shows "\<exists>m. exec FULL_CITATION (H @ '' '' @ (sec @ paren sub @ paren par) @ K @ '' '' @ T @ '' '' @ Y) = Some m
             \<and> group_text m 1 = sec @ paren sub @ paren par \<and> group_text m 2 = T \<and> group_text m 3 = Y"
proof (rule exec_first)
  define pin where "pin = sec @ paren sub @ paren par"
  have H1: "(H = ''Section'' \<and> K = '','') \<or> (H = ''s.'' \<and> K = [])"
    using H by blast
  have "rm FULL_CITATION ([], H @ '' '' @ pin @ K @ '' '' @ T @ '' '' @ Y, []) \<noteq> []"
    using H1
  proof (rule FULL_CITATION_match)
    show "(rev pin @ pre, r, c) \<in> set (rm
        (Seqs [Plus True (Atom digit),
               Star True (Seqs [Chr CHR ''('', Plus True (Atom digit), Chr CHR '')'']),
               Star True (Seqs [Chr CHR ''('', Atom letter, Chr CHR '')''])]) (pre, pin @ r, c))"
      for pre r c
      unfolding pin_def by (rule pin_body_match [OF sec sub par])
  qed (rule T Y)+
  then show "rm FULL_CITATION ([], H @ '' '' @ (sec @ paren sub @ paren par) @ K @ '' '' @ T @ '' '' @ Y, []) \<noteq> []"
    unfolding pin_def .
next
  fix y
  define pin where "pin = sec @ paren sub @ paren par"
  assume "y \<in> set (rm FULL_CITATION ([], H @ '' '' @ (sec @ paren sub @ paren par) @ K @ '' '' @ T @ '' '' @ Y, []))"
  then have "y \<in> set (rm FULL_CITATION ([], H @ '' '' @ pin @ K @ '' '' @ T @ '' '' @ Y, []))"
    unfolding pin_def .
  from FULL_CITATION_member [OF this] obtain a w1 g1 w2 k w3 g2 w4 g3 where
    m: "H @ '' '' @ pin @ K @ '' '' @ T @ '' '' @ Y = a @ w1 @ g1 @ w2 @ k @ w3 @ g2 @ w4 @ g3"
      "list_all (\<lambda>c. \<not> space c) a"
      "w1 \<noteq> []" "list_all space w1"
      "list_all (\<lambda>c. digit c \<or> c = CHR ''('' \<or> c = CHR '')'' \<or> letter c) g1"
      "list_all space w2" "k = [] \<or> k = '',''"
      "w3 \<noteq> []" "list_all space w3"
      "list_all dot g2"
      "w4 \<noteq> []" "list_all space w4"
      "length g3 = 4" "list_all digit g3"
      "snd (snd y) = [(3, g3), (2, g2), (1, g1)]"
    by blast
  have Hs: "list_all (\<lambda>c. \<not> space c) H"
    using H by (auto simp: space_def)
  have K: "K = '','' \<or> (K = [] \<and> hd T \<noteq> CHR '','')"
    using H by blast
  have p1: "pin \<noteq> []"
    using sec(1) by (simp add: pin_def)
  have p2: "list_all (\<lambda>c. digit c \<or> c = CHR ''('' \<or> c = CHR '')'' \<or> letter c) pin"
    unfolding pin_def by (rule pin_chars [OF sec(2) sub par])
  have "g1 = pin \<and> g2 = T \<and> g3 = Y"
    by (rule citation_split_unique [OF m(1) Hs p1 p2 K T(1,3,4) Y(1) m(2,3,4,5,6,7,8,9,11,12,13)])
  then show "group_text y 1 = sec @ paren sub @ paren par \<and> group_text y 2 = T \<and> group_text y 3 = Y"
    by (simp add: group_text_def cap_def m(15) pin_def)
qed

lemma lower_letter: "lower p \<Longrightarrow> letter p"
  by (simp add: letter_def)

lemma parseCitation_formatted:
  assumes H: "(H = ''Section'' \<and> K = '','') \<or> (H = ''s.'' \<and> K = [] \<and> hd T \<noteq> CHR '','')"
    and sec: "sec \<noteq> []" "list_all digit sec"
    and sub: "\<And>t. sub = Some t \<Longrightarrow> t \<noteq> [] \<and> list_all digit t"
    and par: "\<And>t. par = Some t \<Longrightarrow> \<exists>p. t = [p] \<and> lower p"
    and T: "T \<noteq> []" "list_all dot T" "\<not> space (hd T)" "\<not> space (last T)"
    and Y: "length Y = 4" "list_all digit Y"
  shows "parseCitation (H @ '' '' @ (sec @ paren sub @ paren par) @ K @ '' '' @ T @ '' '' @ Y) =
           \<lparr>valid = True, ctype = statute, title = Some T, year = Some (parseInt Y),
            section' = Some sec, subsection' = sub, paragraph' = par, error = None\<rparr>"
proof -
  define s where "s = H @ '' '' @ (sec @ paren sub @ paren par) @ K @ '' '' @ T @ '' '' @ Y"
  have par': "\<exists>p. t = [p] \<and> letter p" if "par = Some t" for t
    using par [OF that] lower_letter by blast
  have Yn: "Y \<noteq> []"
    using Y(1) by auto
  have "s \<noteq> []" "\<not> space (hd s)" "\<not> space (last s)"
    using H Yn digit_not_space [OF list_all_last [OF Y(2) Yn]] by (auto simp: s_def space_def)
  then have t: "trim s = s"
    by (rule trim_id)
  from FULL_CITATION_exec [OF H sec sub par' T Y] obtain m where
    m: "exec FULL_CITATION s = Some m" "group_text m 1 = sec @ paren sub @ paren par"
      "group_text m 2 = T" "group_text m 3 = Y"
    unfolding s_def by blast
  from SECTION_REF_exec [OF sec sub par] obtain n where
    n: "exec SECTION_REF (sec @ paren sub @ paren par) = Some n"
      "cap n 1 = Some sec" "cap n 2 = sub" "cap n 3 = par"
    by blast
  have g: "group_text n 1 = sec"
    unfolding group_text_def n(2) by simp
  have g2: "nonempty_group n 2 = sub"
    using sub by (cases sub) (simp_all add: nonempty_group_def n(3))
  have g3: "nonempty_group n 3 = par"
    using par by (cases par) (auto simp: nonempty_group_def n(4))
  have "parseCitation s =
           \<lparr>valid = True, ctype = statute, title = Some T, year = Some (parseInt Y),
            section' = Some sec, subsection' = sub, paragraph' = par, error = None\<rparr>"
    unfolding parseCitation_def Let_def t m parseSection_def option.case n(1) g g2 g3
      trim_id [OF T(1,3,4)]
    by (rule refl)
  then show ?thesis
    unfolding s_def .
qed

lemma format_parse_full_short:
  assumes "valid c"
    and "section' c = Some sec" and "sec \<noteq> []" and "list_all digit sec"
    and "subsection' c = None \<or> (\<exists>t. subsection' c = Some t \<and> t \<noteq> [] \<and> list_all digit t)"
    and "paragraph' c = None \<or> (\<exists>p. paragraph' c = Some [p] \<and> lower p)"
    and "title c = Some T" and "T \<noteq> []" and "list_all dot T"
    and "\<not> space (hd T)" and "\<not> space (last T)"
    and "year c = Some (Num y)" and "1000 \<le> y" and "y \<le> 9999"
    and "f = full \<or> (f = short \<and> hd T \<noteq> CHR '','')"
  shows "valid (parseCitation (formatCitation c f))
       \<and> section' (parseCitation (formatCitation c f)) = section' c
       \<and> subsection' (parseCitation (formatCitation c f)) = subsection' c
       \<and> paragraph' (parseCitation (formatCitation c f)) = paragraph' c
       \<and> title (parseCitation (formatCitation c f)) = title c
       \<and> year (parseCitation (formatCitation c f)) = year c"
proof -
  define sub where "sub = subsection' c"
  define par where "par = paragraph' c"
  define Y where "Y = show_nat (nat y)"
  define H where "H = (if f = full then ''Section'' else ''s.'')"
  define K where "K = (if f = full then '','' else [])"
  have sub: "t \<noteq> [] \<and> list_all digit t" if "sub = Some t" for t
    using assms(5) that by (auto simp: sub_def)
  have par: "\<exists>p. t = [p] \<and> lower p" if "par = Some t" for t
    using assms(6) that by (auto simp: par_def)
  have HK: "(H = ''Section'' \<and> K = '','') \<or> (H = ''s.'' \<and> K = [] \<and> hd T \<noteq> CHR '','')"
    using assms(15) by (auto simp: H_def K_def)
  have Y: "length Y = 4" "list_all digit Y"
    using assms(13,14) by (simp_all add: Y_def show_nat_length4 show_nat_digits)
  have Yn: "Y \<noteq> []"
    using Y(1) by auto
  have yt: "year_text c = Y"
    using assms(12,13) by (simp add: year_text_def show_number_def Y_def)
  have pin: "buildPinpoint c = sec @ paren sub @ paren par"
  proof -
    have 1: "(if present sub then ''('' @ the sub @ '')'' else []) = paren sub"
      using sub by (cases sub) (simp_all add: present_def paren_def)
    have 2: "(if present par then ''('' @ the par @ '')'' else []) = paren par"
      using par by (cases par) (auto simp: present_def paren_def)
    have "buildPinpoint c = sec @ (if present sub then ''('' @ the sub @ '')'' else [])
                               @ (if present par then ''('' @ the par @ '')'' else [])"
      by (simp add: buildPinpoint_def Let_def assms(2) sub_def par_def)
    then show ?thesis
      unfolding 1 2 .
  qed
  define s where "s = H @ '' '' @ (sec @ paren sub @ paren par) @ K @ '' '' @ T @ '' '' @ Y"
  have "s \<noteq> []" "\<not> space (hd s)" "\<not> space (last s)"
    using HK Yn digit_not_space [OF list_all_last [OF Y(2) Yn]] by (auto simp: s_def space_def)
  then have t: "trim s = s"
    by (rule trim_id)
  have pr: "present (section' c)"
    using assms(2,3) by (simp add: present_def)
  have "formatCitation c f = trim s"
    using assms(1,15) pr
    by (auto simp: formatCitation_def Let_def pin title_text_def assms(7) yt s_def H_def K_def)
  then have fs: "formatCitation c f = s"
    unfolding t .
  have "parseCitation s =
           \<lparr>valid = True, ctype = statute, title = Some T, year = Some (parseInt Y),
            section' = Some sec, subsection' = sub, paragraph' = par, error = None\<rparr>"
    unfolding s_def by (rule parseCitation_formatted [OF HK assms(3,4) sub par assms(8,9,10,11) Y])
  moreover have "parseInt Y = Num y"
    using assms(13) by (simp add: Y_def parseInt_show_nat)
  ultimately show ?thesis
    unfolding fs by (simp add: assms(2,7,12) sub_def par_def)
qed

text \<open>A text with fewer than two runs of white space is no citation.\<close>

lemma Bol_only_at_start: "fst x \<noteq> [] \<Longrightarrow> rm (Seqs (Bol # rs)) x = []"
  by (simp add: Seqs_def rm.simps)

lemma exec_anchored:
  assumes "rm (Seqs (Bol # rs)) ([], s, []) = []"
  shows "exec (Seqs (Bol # rs)) s = None"
  unfolding exec_def
proof (rule exec_from_None)
  fix k
  assume k: "k \<le> length s"
  show "rm (Seqs (Bol # rs)) (rev (take k s) @ [], drop k s, []) = []"
  proof (cases "k = 0")
    case True
    with assms show ?thesis by simp
  next
    case False
    with k have "take k s \<noteq> []" by auto
    then show ?thesis by (intro Bol_only_at_start) simp
  qed
qed

lemma filter_space_all: "list_all space w \<Longrightarrow> length (filter space w) = length w"
  by (induction w) auto

lemma FULL_CITATION_spaces:
  assumes "y \<in> set (rm FULL_CITATION ([], s, []))"
  shows "2 \<le> length (filter space s)"
proof -
  from FULL_CITATION_member [OF assms] obtain a w1 g1 w2 k w3 g2 w4 g3 where
    m: "s = a @ w1 @ g1 @ w2 @ k @ w3 @ g2 @ w4 @ g3"
      "w1 \<noteq> []" "list_all space w1" "w3 \<noteq> []" "list_all space w3"
    by blast
  have "length w1 + length w3 \<le> length (filter space s)"
    unfolding m(1) by (simp add: filter_space_all [OF m(3)] filter_space_all [OF m(5)])
  moreover have "1 \<le> length w1" "1 \<le> length w3"
    using m(2,4) by (simp_all add: Suc_le_eq)
  ultimately show ?thesis by linarith
qed

lemma SHORT_CITATION_spaces:
  assumes "y \<in> set (rm SHORT_CITATION ([], s, []))"
  shows "2 \<le> length (filter space s)"
proof -
  let ?G1 = "Group 1 (Seqs [Plus True (Atom digit),
                     Star True (Seqs [Chr CHR ''('', Plus True (Atom digit), Chr CHR '')'']),
                     Star True (Seqs [Chr CHR ''('', Atom lower, Chr CHR '')''])])"
  let ?R = "Seqs [Group 2 (Seq (Atom upper)
                 (Star False (Atom (\<lambda>c. upper c \<or> digit c \<or> c = CHR ''&'' \<or> space c)))),
      Plus True (Atom space),
      Group 3 (Seqs [Atom digit, Atom digit, Atom digit, Atom digit]),
      Eol]"
  from assms obtain z0 z1 z2 z3 z4 z5 where
    0: "z0 \<in> set (rm Bol ([], s, []))"
    and 1: "z1 \<in> set (rm (Chr CHR ''s'') z0)"
    and 2: "z2 \<in> set (rm (Opt (Chr CHR ''.'')) z1)"
    and 3: "z3 \<in> set (rm (Plus True (Atom space)) z2)"
    and 4: "z4 \<in> set (rm ?G1 z3)"
    and 5: "z5 \<in> set (rm (Plus True (Atom space)) z4)"
    and 6: "y \<in> set (rm ?R z5)"
    unfolding SHORT_CITATION_def in_rm_Seqs_Cons [of _ Bol] in_rm_Seqs_Cons [of _ "Chr CHR ''s''"]
      in_rm_Seqs_Cons [of _ "Opt (Chr CHR ''.'')"] in_rm_Seqs_Cons [of _ "Plus True (Atom space)" "?G1 # _"]
      in_rm_Seqs_Cons [of _ ?G1] in_rm_Seqs_Cons [of _ "Plus True (Atom space)" "Group 2 _ # _"]
    by blast
  have c: "\<exists>u. fst (snd v) = u @ fst (snd w)" if "w \<in> set (rm r v)" for r v w
    using rm_consumes [OF that] unfolding consumes_def by blast
  from 0 have e0: "fst (snd z0) = s"
    unfolding in_rm_Bol by simp
  from c [OF 1] obtain u1 where e1: "fst (snd z0) = u1 @ fst (snd z1)" by blast
  from c [OF 2] obtain u2 where e2: "fst (snd z1) = u2 @ fst (snd z2)" by blast
  from rm_Plus_Atom_elim [OF 3] obtain w1 where
    e3: "w1 \<noteq> []" "list_all space w1" "fst (snd z2) = w1 @ fst (snd z3)" by blast
  from c [OF 4] obtain u4 where e4: "fst (snd z3) = u4 @ fst (snd z4)" by blast
  from rm_Plus_Atom_elim [OF 5] obtain w2 where
    e5: "w2 \<noteq> []" "list_all space w2" "fst (snd z4) = w2 @ fst (snd z5)" by blast
  have s: "s = u1 @ u2 @ w1 @ u4 @ w2 @ fst (snd z5)"
    using e0 e1 e2 e3(3) e4 e5(3) by simp
  have "length w1 + length w2 \<le> length (filter space s)"
    unfolding s by (simp add: filter_space_all [OF e3(2)] filter_space_all [OF e5(2)])
  moreover have "1 \<le> length w1" "1 \<le> length w2"
    using e3(1) e5(1) by (simp_all add: Suc_le_eq)
  ultimately show ?thesis by linarith
qed

lemma not_parsed:
  assumes "length (filter space s) < 2" and "s \<noteq> []" and "\<not> space (hd s)" and "\<not> space (last s)"
  shows "\<not> valid (parseCitation s)"
proof -
  have t: "trim s = s"
    using assms(2,3,4) by (rule trim_id)
  have "rm FULL_CITATION ([], s, []) = []"
  proof (rule ccontr)
    assume "rm FULL_CITATION ([], s, []) \<noteq> []"
    then obtain y where "y \<in> set (rm FULL_CITATION ([], s, []))"
      by (cases "rm FULL_CITATION ([], s, [])") auto
    from FULL_CITATION_spaces [OF this] assms(1) show False by simp
  qed
  then have 1: "exec FULL_CITATION s = None"
    unfolding FULL_CITATION_def by (rule exec_anchored)
  have "rm SHORT_CITATION ([], s, []) = []"
  proof (rule ccontr)
    assume "rm SHORT_CITATION ([], s, []) \<noteq> []"
    then obtain y where "y \<in> set (rm SHORT_CITATION ([], s, []))"
      by (cases "rm SHORT_CITATION ([], s, [])") auto
    from SHORT_CITATION_spaces [OF this] assms(1) show False by simp
  qed
  then have 2: "exec SHORT_CITATION s = None"
    unfolding SHORT_CITATION_def by (rule exec_anchored)
  show ?thesis
    by (simp add: parseCitation_def t 1 2)
qed

lemma filter_space_none:
  "list_all (\<lambda>c. digit c \<or> c = CHR ''('' \<or> c = CHR '')'' \<or> letter c) u \<Longrightarrow> filter space u = []"
  using pin_char_not_space by (induction u) auto

lemma format_parse_pinpoint:
  assumes "valid c"
    and "section' c = Some sec" and "sec \<noteq> []" and "list_all digit sec"
    and "subsection' c = None \<or> (\<exists>t. subsection' c = Some t \<and> t \<noteq> [] \<and> list_all digit t)"
    and "paragraph' c = None \<or> (\<exists>p. paragraph' c = Some [p] \<and> lower p)"
  shows "\<not> valid (parseCitation (formatCitation c pinpoint))"
proof -
  define sub where "sub = subsection' c"
  define par where "par = paragraph' c"
  define pin where "pin = sec @ paren sub @ paren par"
  have sub: "t \<noteq> [] \<and> list_all digit t" if "sub = Some t" for t
    using assms(5) that by (auto simp: sub_def)
  have par: "\<exists>p. t = [p] \<and> letter p" if "par = Some t" for t
    using assms(6) that lower_letter by (auto simp: par_def)
  have b: "buildPinpoint c = pin"
  proof -
    have 1: "(if present sub then ''('' @ the sub @ '')'' else []) = paren sub"
      using sub by (cases sub) (simp_all add: present_def paren_def)
    have 2: "(if present par then ''('' @ the par @ '')'' else []) = paren par"
      using par by (cases par) (auto simp: present_def paren_def)
    have "buildPinpoint c = sec @ (if present sub then ''('' @ the sub @ '')'' else [])
                               @ (if present par then ''('' @ the par @ '')'' else [])"
      by (simp add: buildPinpoint_def Let_def assms(2) sub_def par_def)
    then show ?thesis
      unfolding 1 2 pin_def .
  qed
  have pc: "list_all (\<lambda>c. digit c \<or> c = CHR ''('' \<or> c = CHR '')'' \<or> letter c) pin"
    unfolding pin_def by (rule pin_chars [OF assms(4) sub par])
  have pn: "pin \<noteq> []"
    using assms(3) by (simp add: pin_def)
  have f: "formatCitation c pinpoint = ''s. '' @ pin"
    using assms(1,2,3) by (simp add: formatCitation_def Let_def present_def b)
  have "\<not> space (last pin)"
    using pin_char_not_space [OF list_all_last [OF pc pn]] by simp
  then have l: "\<not> space (last (''s. '' @ pin))"
    using pn by simp
  have h: "\<not> space (hd (''s. '' @ pin))" "''s. '' @ pin \<noteq> []"
    by (simp_all add: space_def)
  have n: "length (filter space (''s. '' @ pin)) < 2"
    by (simp add: filter_space_none [OF pc] space_def)
  show ?thesis
    unfolding f by (rule not_parsed [OF n h(2) h(1) l])
qed

text \<open>
  C2 as stated fails for the pinpoint format: the formatted text \<open>s. 1(1)(a)\<close> has neither
  title nor year, and the parser rejects it.
\<close>

theorem pinpoint_not_parsed:
  "valid example_citation \<and>
   formatCitation example_citation pinpoint = ''s. 1(1)(a)'' \<and>
   \<not> valid (parseCitation (formatCitation example_citation pinpoint))"
  by code_simp

text \<open>
  C2, amended. Let \<open>c\<close> be a valid citation whose section is a non-empty string of digits,
  whose subsection is absent or a non-empty string of digits, whose paragraph is absent or
  one lower-case letter, whose title is not empty, has no line terminator and neither
  begins nor ends with white space, and whose year is a number from 1000 to 9999. Then
  parsing the full format of \<open>c\<close>, and the short format when the title does not begin
  with a comma, gives a valid citation with the section, subsection, paragraph, title and
  year of \<open>c\<close>; the pinpoint format of \<open>c\<close> is not parsed as a citation.
\<close>

theorem format_parse_roundtrip:
  assumes "valid c"
    and "section' c = Some sec" and "sec \<noteq> []" and "list_all digit sec"
    and "subsection' c = None \<or> (\<exists>t. subsection' c = Some t \<and> t \<noteq> [] \<and> list_all digit t)"
    and "paragraph' c = None \<or> (\<exists>p. paragraph' c = Some [p] \<and> lower p)"
    and "title c = Some T" and "T \<noteq> []" and "list_all dot T"
    and "\<not> space (hd T)" and "\<not> space (last T)"
    and "year c = Some (Num y)" and "1000 \<le> y" and "y \<le> 9999"
  shows "(f = full \<or> (f = short \<and> hd T \<noteq> CHR '','') \<longrightarrow>
           valid (parseCitation (formatCitation c f))
         \<and> section' (parseCitation (formatCitation c f)) = section' c
         \<and> subsection' (parseCitation (formatCitation c f)) = subsection' c
         \<and> paragraph' (parseCitation (formatCitation c f)) = paragraph' c
         \<and> title (parseCitation (formatCitation c f)) = title c
         \<and> year (parseCitation (formatCitation c f)) = year c)
       \<and> \<not> valid (parseCitation (formatCitation c pinpoint))"
proof (intro conjI impI)
  show "\<not> valid (parseCitation (formatCitation c pinpoint))"
    by (rule format_parse_pinpoint [OF assms(1-6)])
next
  assume f: "f = full \<or> (f = short \<and> hd T \<noteq> CHR '','')"
  note r = format_parse_full_short [OF assms f]
  from r show "valid (parseCitation (formatCitation c f))" by blast
  from r show "section' (parseCitation (formatCitation c f)) = section' c" by blast
  from r show "subsection' (parseCitation (formatCitation c f)) = subsection' c" by blast
  from r show "paragraph' (parseCitation (formatCitation c f)) = paragraph' c" by blast
  from r show "title (parseCitation (formatCitation c f)) = title c" by blast
  from r show "year (parseCitation (formatCitation c f)) = year c" by blast
qed

theorem format_parse_roundtrip_witness:
  "formatCitation example_citation short = ''s. 1(1)(a) Data Protection Act 2018'' \<and>
   valid (parseCitation (formatCitation example_citation short)) \<and>
   section' (parseCitation (formatCitation example_citation short)) = Some ''1'' \<and>
   subsection' (parseCitation (formatCitation example_citation short)) = Some ''1'' \<and>
   paragraph' (parseCitation (formatCitation example_citation short)) = Some ''a'' \<and>
   title (parseCitation (formatCitation example_citation short)) = Some ''Data Protection Act'' \<and>
   year (parseCitation (formatCitation example_citation short)) = Some (Num 2018) \<and>
   \<not> valid (parseCitation (formatCitation example_citation pinpoint))"
proof -
  have f: "formatCitation example_citation short = ''s. 1(1)(a) Data Protection Act 2018''"
    by code_simp
  have "(short = full \<or> (short = short \<and> hd ''Data Protection Act'' \<noteq> CHR '','') \<longrightarrow>
         valid (parseCitation (formatCitation example_citation short))
       \<and> section' (parseCitation (formatCitation example_citation short)) = section' example_citation
       \<and> subsection' (parseCitation (formatCitation example_citation short)) = subsection' example_citation
       \<and> paragraph' (parseCitation (formatCitation example_citation short)) = paragraph' example_citation
       \<and> title (parseCitation (formatCitation example_citation short)) = title example_citation
       \<and> year (parseCitation (formatCitation example_citation short)) = year example_citation)
       \<and> \<not> valid (parseCitation (formatCitation example_citation pinpoint))"
    by (rule format_parse_roundtrip [where sec = "''1''" and T = "''Data Protection Act''" and y = 2018])
       (simp_all add: example_citation_def digit_def dot_def lower_def space_def)
  then show ?thesis
    using f by (simp add: example_citation_def)
qed


section \<open>A citation too long for the title query\<close>

lemma utf8_length_append: "utf8_length (a @ b) = utf8_length a + utf8_length b"
  by (induction a) (simp_all add: utf8_length_def)

lemma utf8_length_replicate: "utf8_length (replicate n CHR ''a'') = n"
  by (induction n) (simp_all add: utf8_length_def)

lemma c_string_id: "CHR 0x00 \<notin> set s \<Longrightarrow> c_string s = s"
  by (auto simp: c_string_def takeWhile_eq_all_conv)

lemma c_string_length: "length (c_string s) \<le> length s"
  unfolding c_string_def by (rule length_takeWhile_le)

lemma like_match_length:
  "like_match p t \<Longrightarrow> length (filter (\<lambda>c. c \<noteq> CHR ''%'') p) \<le> length t"
  by (induction p t rule: like_match.induct) (auto split: if_splits)

lemma long_pattern_no_match:
  assumes "CHR 0x00 \<notin> set p" and "length t < length (filter (\<lambda>c. c \<noteq> CHR ''%'') p)"
  shows "\<not> sql_like p t"
proof
  assume "sql_like p t"
  then have "like_match p (c_string t)"
    by (simp add: sql_like_def c_string_id [OF assms(1)])
  from like_match_length [OF this] c_string_length [of t] assms(2) show False
    by simp
qed

lemma long_title_facts:
  "long_title \<noteq> []" "list_all dot long_title" "\<not> space (hd long_title)" "\<not> space (last long_title)"
  "set long_title = {CHR ''a''}" "length long_title = 50000" "utf8_length long_title = 50000"
proof -
  have n: "(50000::nat) \<noteq> 0" by simp
  show "length long_title = 50000"
    unfolding long_title_def by (rule length_replicate)
  then show "long_title \<noteq> []" by auto
  show s: "set long_title = {CHR ''a''}"
    unfolding long_title_def using n by (rule set_replicate)
  show "list_all dot long_title"
    unfolding list_all_iff s by (simp add: dot_def)
  show "\<not> space (hd long_title)"
    unfolding long_title_def hd_replicate [OF n] by (simp add: space_def)
  show "\<not> space (last long_title)"
    unfolding long_title_def last_replicate [OF n] by (simp add: space_def)
  show "utf8_length long_title = 50000"
    unfolding long_title_def by (rule utf8_length_replicate)
qed

lemma parse_long_title:
  "parseCitation long_citation =
     \<lparr>valid = True, ctype = statute, title = Some long_title, year = Some (Num 2018),
      section' = Some ''1'', subsection' = None, paragraph' = None, error = None\<rparr>"
proof -
  have d: "''1'' \<noteq> []" "list_all digit ''1''" "length ''2018'' = 4" "list_all digit ''2018''"
    by (simp_all add: digit_def)
  have y: "parseInt ''2018'' = Num 2018"
    by code_simp
  have "parseCitation (''Section'' @ '' '' @ (''1'' @ paren None @ paren None) @ '','' @ '' ''
                          @ long_title @ '' '' @ ''2018'') =
     \<lparr>valid = True, ctype = statute, title = Some long_title, year = Some (parseInt ''2018''),
      section' = Some ''1'', subsection' = None, paragraph' = None, error = None\<rparr>"
    by (rule parseCitation_formatted [OF _ d(1,2) _ _ long_title_facts(1-4) d(3,4)]) simp_all
  then show ?thesis
    unfolding y long_citation_def by (simp add: paren_def)
qed

text \<open>
  C3. The citation \<open>Section 1, aa...a 2018\<close> with 50000 letters \<open>a\<close> parses as valid and
  no document of the store matches its title and year, yet the validator does not return
  the not-found result: the pattern of the title query is longer than \<open>LIKE\<close> accepts, and
  the query throws.
\<close>

theorem validate_long_title_throws:
  "valid (parseCitation long_citation) \<and>
   list_all (\<lambda>d. \<not> sql_like (document_pattern (parseCitation long_citation))
                    (doc_title d))
            (legal_documents example_db) \<and>
   validateCitation example_db long_citation = Inl LikePatternTooComplex"
proof -
  define p where "p = ''%'' @ long_title @ ''%2018%''"
  have y: "show_number (Num 2018) = ''2018''"
    by code_simp
  have dp: "document_pattern (parseCitation long_citation) = p"
    unfolding parse_long_title by (simp add: document_pattern_def tmpl_def year_text_def y p_def)
  have v: "valid (parseCitation long_citation)"
    unfolding parse_long_title by simp
  have nul: "CHR 0x00 \<notin> set p"
    by (simp add: p_def long_title_facts(5))
  have len: "length (filter (\<lambda>c. c \<noteq> CHR ''%'') p) = 50004"
    by (simp add: p_def long_title_facts(5,6) filter_id_conv)
  have nm: "\<not> sql_like p t" if "length t < 50004" for t
    using long_pattern_no_match [OF nul, of t] that len by simp
  have n: "list_all (\<lambda>d. \<not> sql_like p (doc_title d)) (legal_documents example_db)"
    by (simp add: example_db_def nm)
  have u1: "utf8_length ''%'' = 1" "utf8_length ''%2018%'' = 6"
    by (simp_all add: utf8_length_def)
  have "utf8_length p = utf8_length ''%'' + (utf8_length long_title + utf8_length ''%2018%'')"
    unfolding p_def utf8_length_append by (rule refl)
  then have u: "utf8_length p = 50007"
    unfolding u1 long_title_facts(7) by simp
  have "find_document example_db p = Inl LikePatternTooComplex"
    by (simp add: find_document_def u SQLITE_MAX_LIKE_PATTERN_LENGTH_def example_db_def)
  then have t: "validateCitation example_db long_citation = Inl LikePatternTooComplex"
    using v by (simp add: validateCitation_def Let_def dp)
  from v n t show ?thesis
    unfolding dp by blast
qed

end
